theory Spec2Isabelle
  imports Main
begin

section \<open>The worker pool of workers/workers.go as an interleaving of goroutines\<close>

text \<open>
  The Go program runs one scheduler goroutine (\<open>processQueue\<close>), \<open>count\<close> worker
  goroutines (\<open>startWorker\<close>), and the callers of \<open>NewJob\<close>, \<open>Go\<close>, \<open>Done\<close>,
  \<open>Wait\<close> and \<open>Stop\<close>. The model keeps the fields of the two structs, a program
  counter for every goroutine, and one step function per goroutine. A step is one
  channel operation, one WaitGroup operation or one critical section of the source.
  Any number of callers may be inside \<open>NewJob\<close>, \<open>Go\<close>, \<open>Done\<close> and \<open>Wait\<close> at
  once; \<open>Stop\<close> is called by at most one caller, at most once.

  A task (\<open>func() error\<close>) is opaque to the pool, which only calls it and looks at
  the error it returns: it is modelled by that returned value, \<open>None\<close> for Go's
  \<open>nil\<close>. A task that panics or never returns is outside the model.
\<close>

text \<open>
  Modelled from the spec: \<open>ErrShutdown\<close> is declared in a file of the package that is
  not among the sources. The spec calls it the \<open>ShuttingDown\<close> error, returned by
  \<open>NewJob\<close> once shutdown has begun and delivered as the outcome of a job that the
  scheduler reaches after shutdown began. Every other error value is one that a task
  returns.
\<close>

datatype error = ErrShutdown | TaskErr string

type_synonym task = "error option"

text \<open>
  What a step can do: the goroutine cannot move (it is blocked, or it is not at a
  place where this step applies), the Go runtime panics (close of a closed channel,
  send on a closed channel, negative WaitGroup counter, negative channel size), or
  the step yields the next state.
\<close>

datatype 'a res = Blocked | Panic | Next 'a

subsection \<open>Channels\<close>

text \<open>
  A buffered channel: \<open>buf\<close> holds the values sent and not yet received (oldest
  first), \<open>taken\<close> the values already received (oldest first), \<open>cap\<close> the buffer
  size given to \<open>make\<close>, \<open>closed\<close> whether \<open>close\<close> was called.
\<close>

record 'a chan =
  taken :: "'a list"
  buf :: "'a list"
  cap :: nat
  closed :: bool

definition make_chan :: "nat \<Rightarrow> 'a chan" where
  "make_chan n = \<lparr>taken = [], buf = [], cap = n, closed = False\<rparr>"

text \<open>Every value ever sent on the channel, in sending order.\<close>

definition sent :: "'a chan \<Rightarrow> 'a list" where
  "sent c = taken c @ buf c"

text \<open>
  \<open>c <- v\<close>. The flag \<open>parked\<close> says that the receiving goroutine of this channel is
  waiting in its receive; then a send that finds no room in the buffer (always, for
  an unbuffered channel) passes the value to the receiver directly. The second
  component of the result says whether that happened.
\<close>

definition chan_send :: "bool \<Rightarrow> 'a \<Rightarrow> 'a chan \<Rightarrow> ('a chan \<times> bool) res" where
  "chan_send parked v c =
     (if closed c then Panic
      else if length (buf c) < cap c then Next (c\<lparr>buf := buf c @ [v]\<rparr>, False)
      else if parked \<and> buf c = [] then Next (c\<lparr>taken := taken c @ [v]\<rparr>, True)
      else Blocked)"

text \<open>\<open><-c\<close> and one round of \<open>range c\<close>.\<close>

datatype 'a recv = Got 'a "'a chan" | Drained | Empty

definition chan_recv :: "'a chan \<Rightarrow> 'a recv" where
  "chan_recv c =
     (case buf c of
        v # vs \<Rightarrow> Got v (c\<lparr>taken := taken c @ [v], buf := vs\<rparr>)
      | [] \<Rightarrow> if closed c then Drained else Empty)"

definition chan_close :: "'a chan \<Rightarrow> 'a chan res" where
  "chan_close c = (if closed c then Panic else Next (c\<lparr>closed := True\<rparr>))"

subsection \<open>The structs\<close>

text \<open>
  The goroutine that \<open>Done\<close> starts when it is given a callback: it waits for
  \<open>completed\<close> and then calls the callback.
\<close>

datatype callback_pc = NoCallback | CallbackWaiting | CallbackRan

text \<open>
  \<open>type Job struct\<close>. \<open>completed\<close> is a channel that is only ever closed: the
  model keeps whether it is closed.
\<close>

record Job =
  tasks :: "task chan"
  completed :: bool
  result :: "error option chan"
  callback :: callback_pc

text \<open>
  \<open>type Workers struct\<close>. \<open>queue\<close> carries job pointers, here indices into the
  list of allocated jobs. \<open>ackShutdown\<close> and \<open>stopWorkers\<close> are only ever closed and
  are kept as "is closed". The unbuffered channels \<open>tasks\<close> and \<open>stoppedWorkers\<close>
  hold no value between steps: a send and its receive are one step of both
  goroutines (\<open>dispatch\<close> and \<open>confirm\<close> below). \<open>sg\<close> is the WaitGroup counter.
  The lock is held inside one step, except in lines 75 to 79 (see \<open>locked\<close>).
\<close>

record Workers =
  count :: int
  queue :: "nat chan"
  shouldShutdown :: bool
  triggeredShutdown :: bool
  err :: "error option"
  sg :: int
  ackShutdown :: bool
  stopWorkers :: bool

subsection \<open>Program counters\<close>

text \<open>
  The scheduler goroutine of \<open>processQueue\<close>:
  \<open>SchedRecv\<close> at \<open>range w.queue\<close> (line 57);
  \<open>SchedCheck j\<close> before the critical section of lines 59 to 61;
  \<open>SchedReject j\<close> at \<open>j.result <- ErrShutdown\<close> (line 63);
  \<open>SchedDrain j\<close> at \<open>range j.tasks\<close> (line 68);
  \<open>SchedAdd j t\<close> at \<open>w.sg.Add(1)\<close> (line 69);
  \<open>SchedSend j t\<close> at \<open>w.tasks <- t\<close> (line 70);
  \<open>SchedWait j\<close> at \<open>w.sg.Wait()\<close> (line 72);
  \<open>SchedClose j\<close> at lines 75 and 76;
  \<open>SchedResult j\<close> at lines 77 to 79, holding the lock;
  \<open>SchedAck\<close> at lines 83 to 88; \<open>SchedDone\<close> when the goroutine has ended.
\<close>

datatype sched_pc =
    SchedRecv
  | SchedCheck nat
  | SchedReject nat
  | SchedDrain nat
  | SchedAdd nat task
  | SchedSend nat task
  | SchedWait nat
  | SchedClose nat
  | SchedResult nat
  | SchedAck
  | SchedDone

text \<open>
  A worker goroutine of \<open>startWorker\<close>:
  \<open>WSelect\<close> at the \<open>select\<close> (line 95);
  \<open>WConfirm\<close> at \<open>w.stoppedWorkers <- struct{}{}\<close> (line 97);
  \<open>WStopped\<close> after the \<open>return\<close> of line 98;
  \<open>WCheck t\<close> having received \<open>t\<close>, before lines 101 to 103;
  \<open>WSkip\<close> at line 105; \<open>WExited\<close> after the \<open>return\<close> of line 106;
  \<open>WRun t\<close> at the call of line 110;
  \<open>WRecord e\<close> before the critical section of lines 111 to 115;
  \<open>WFinish\<close> at \<open>w.sg.Done()\<close> of line 117.
\<close>

datatype worker_pc =
    WSelect
  | WConfirm
  | WStopped
  | WCheck task
  | WSkip
  | WExited
  | WRun task
  | WRecord error
  | WFinish

text \<open>
  The caller of \<open>Stop\<close>: not yet called; at \<open>close(w.queue)\<close> (line 127); at
  \<open><-w.ackShutdown\<close> (line 130); at \<open>close(w.stopWorkers)\<close> (line 131); in the
  loop of lines 134 to 136 with loop variable \<open>i\<close>; returned.
\<close>

datatype stop_pc =
    StopNotCalled
  | StopCloseQueue
  | StopWaitAck
  | StopCloseWorkers
  | StopLoop int
  | StopReturned

text \<open>
  The whole program state: the \<open>Workers\<close> struct, the allocated jobs, the program
  counters, and the \<open>taskBacklog\<close> arguments of the calls of \<open>NewJob\<close> that are
  between the critical section of lines 167 to 169 and the send of line 178.
\<close>

record system = Workers +
  jobs :: "Job list"
  sched :: sched_pc
  wrk :: "worker_pc list"
  stop :: stop_pc
  submitting :: "int list"

definition job :: "system \<Rightarrow> nat \<Rightarrow> Job" where
  "job s j = jobs s ! j"

definition set_job :: "nat \<Rightarrow> Job \<Rightarrow> system \<Rightarrow> system" where
  "set_job j x s = s\<lparr>jobs := (jobs s)[j := x]\<rparr>"

definition set_wrk :: "nat \<Rightarrow> worker_pc \<Rightarrow> system \<Rightarrow> system" where
  "set_wrk i p s = s\<lparr>wrk := (wrk s)[i := p]\<rparr>"

text \<open>
  The lock is taken and released inside one step everywhere except in lines 75 to
  79, where the scheduler holds it across two channel operations.
\<close>

definition locked :: "system \<Rightarrow> bool" where
  "locked s = (case sched s of SchedResult j \<Rightarrow> True | _ \<Rightarrow> False)"

subsection \<open>New\<close>

text \<open>
  \<open>New(workers, maxJobs)\<close>: \<open>make\<close> panics on a negative size; the loop of lines
  49 to 51 starts no worker when \<open>workers\<close> is not positive.
\<close>

definition New :: "int \<Rightarrow> int \<Rightarrow> system res" where
  "New workers maxJobs =
     (if maxJobs < 0 then Panic
      else Next \<lparr>count = workers, queue = make_chan (nat maxJobs),
        shouldShutdown = False, triggeredShutdown = False, err = None, sg = 0,
        ackShutdown = False, stopWorkers = False,
        jobs = [], sched = SchedRecv, wrk = replicate (nat workers) WSelect,
        stop = StopNotCalled, submitting = []\<rparr>)"

subsection \<open>processQueue\<close>

text \<open>
  Lines 83 to 88, the critical section after the loop: \<open>close\<close> panics on a channel
  that is closed already.
\<close>

definition ack_block :: "system \<Rightarrow> system res" where
  "ack_block s =
     (if shouldShutdown s \<and> \<not> triggeredShutdown s
      then (if ackShutdown s then Panic
            else Next (s\<lparr>triggeredShutdown := True, ackShutdown := True\<rparr>))
      else Next s)"

definition processQueue_step :: "system \<Rightarrow> system res" where
  "processQueue_step s =
     (case sched s of
        SchedRecv \<Rightarrow>
          (case chan_recv (queue s) of
             Got j q \<Rightarrow> Next (s\<lparr>queue := q, sched := SchedCheck j\<rparr>)
           | Drained \<Rightarrow> Next (s\<lparr>sched := SchedAck\<rparr>)
           | Empty \<Rightarrow> Blocked)
      | SchedCheck j \<Rightarrow>
          Next (s\<lparr>sched := (if shouldShutdown s then SchedReject j else SchedDrain j)\<rparr>)
      | SchedReject j \<Rightarrow>
          (case chan_send False (Some ErrShutdown) (result (job s j)) of
             Next (r, _) \<Rightarrow> Next ((set_job j ((job s j)\<lparr>result := r\<rparr>) s)\<lparr>sched := SchedRecv\<rparr>)
           | Panic \<Rightarrow> Panic
           | Blocked \<Rightarrow> Blocked)
      | SchedDrain j \<Rightarrow>
          (case chan_recv (tasks (job s j)) of
             Got t c \<Rightarrow> Next ((set_job j ((job s j)\<lparr>tasks := c\<rparr>) s)\<lparr>sched := SchedAdd j t\<rparr>)
           | Drained \<Rightarrow> Next (s\<lparr>sched := SchedWait j\<rparr>)
           | Empty \<Rightarrow> Blocked)
      | SchedAdd j t \<Rightarrow>
          (if sg s + 1 < 0 then Panic else Next (s\<lparr>sg := sg s + 1, sched := SchedSend j t\<rparr>))
      | SchedSend j t \<Rightarrow> Blocked
      | SchedWait j \<Rightarrow> (if sg s = 0 then Next (s\<lparr>sched := SchedClose j\<rparr>) else Blocked)
      | SchedClose j \<Rightarrow>
          (if completed (job s j) then Panic
           else Next ((set_job j ((job s j)\<lparr>completed := True\<rparr>) s)\<lparr>sched := SchedResult j\<rparr>))
      | SchedResult j \<Rightarrow>
          (case chan_send False (err s) (result (job s j)) of
             Next (r, _) \<Rightarrow>
               Next ((set_job j ((job s j)\<lparr>result := r\<rparr>) s)\<lparr>err := None, sched := SchedRecv\<rparr>)
           | Panic \<Rightarrow> Panic
           | Blocked \<Rightarrow> Blocked)
      | SchedAck \<Rightarrow>
          (case ack_block s of
             Next s' \<Rightarrow> Next (s'\<lparr>sched := SchedDone\<rparr>)
           | Panic \<Rightarrow> Panic
           | Blocked \<Rightarrow> Blocked)
      | SchedDone \<Rightarrow> Blocked)"

subsection \<open>startWorker\<close>

text \<open>
  The steps a worker takes alone. At the \<open>select\<close> it can take the first case once
  \<open>stopWorkers\<close> is closed; the second case is \<open>dispatch\<close>. \<open>sg.Done()\<close> panics when
  the counter would become negative.
\<close>

definition startWorker_step :: "nat \<Rightarrow> system \<Rightarrow> system res" where
  "startWorker_step i s =
     (if length (wrk s) \<le> i then Blocked
      else case wrk s ! i of
        WSelect \<Rightarrow> (if stopWorkers s then Next (set_wrk i WConfirm s) else Blocked)
      | WConfirm \<Rightarrow> Blocked
      | WStopped \<Rightarrow> Blocked
      | WCheck t \<Rightarrow>
          (if locked s then Blocked
           else Next (set_wrk i (if err s \<noteq> None then WSkip else WRun t) s))
      | WSkip \<Rightarrow>
          (if sg s - 1 < 0 then Panic else Next (set_wrk i WExited (s\<lparr>sg := sg s - 1\<rparr>)))
      | WExited \<Rightarrow> Blocked
      | WRun t \<Rightarrow> Next (set_wrk i (case t of Some e \<Rightarrow> WRecord e | None \<Rightarrow> WFinish) s)
      | WRecord e \<Rightarrow>
          (if locked s then Blocked
           else Next (set_wrk i WFinish (s\<lparr>err := (if err s = None then Some e else err s)\<rparr>)))
      | WFinish \<Rightarrow>
          (if sg s - 1 < 0 then Panic else Next (set_wrk i WSelect (s\<lparr>sg := sg s - 1\<rparr>))))"

text \<open>
  \<open>w.tasks <- t\<close> (line 70) meets \<open>j := <-w.tasks\<close> (line 99) of worker \<open>i\<close>.
\<close>

definition dispatch :: "nat \<Rightarrow> system \<Rightarrow> system res" where
  "dispatch i s =
     (if length (wrk s) \<le> i then Blocked
      else case (sched s, wrk s ! i) of
        (SchedSend j t, WSelect) \<Rightarrow> Next (set_wrk i (WCheck t) (s\<lparr>sched := SchedDrain j\<rparr>))
      | _ \<Rightarrow> Blocked)"

subsection \<open>Stop\<close>

definition Stop_step :: "system \<Rightarrow> system res" where
  "Stop_step s =
     (case stop s of
        StopNotCalled \<Rightarrow>
          (if locked s then Blocked
           else Next (s\<lparr>shouldShutdown := True, stop := StopCloseQueue\<rparr>))
      | StopCloseQueue \<Rightarrow>
          (case chan_close (queue s) of
             Next q \<Rightarrow> Next (s\<lparr>queue := q, stop := StopWaitAck\<rparr>)
           | Panic \<Rightarrow> Panic
           | Blocked \<Rightarrow> Blocked)
      | StopWaitAck \<Rightarrow> (if ackShutdown s then Next (s\<lparr>stop := StopCloseWorkers\<rparr>) else Blocked)
      | StopCloseWorkers \<Rightarrow>
          (if stopWorkers s then Panic else Next (s\<lparr>stopWorkers := True, stop := StopLoop 0\<rparr>))
      | StopLoop i \<Rightarrow> (if i < count s then Blocked else Next (s\<lparr>stop := StopReturned\<rparr>))
      | StopReturned \<Rightarrow> Blocked)"

text \<open>
  \<open>w.stoppedWorkers <- struct{}{}\<close> (line 97) of worker \<open>i\<close> meets
  \<open><-w.stoppedWorkers\<close> (line 135); the worker returns, the loop of \<open>Stop\<close> goes on.
\<close>

definition confirm :: "nat \<Rightarrow> system \<Rightarrow> system res" where
  "confirm i s =
     (if length (wrk s) \<le> i then Blocked
      else case (stop s, wrk s ! i) of
        (StopLoop k, WConfirm) \<Rightarrow>
          (if k < count s then Next (set_wrk i WStopped (s\<lparr>stop := StopLoop (k + 1)\<rparr>))
           else Blocked)
      | _ \<Rightarrow> Blocked)"

subsection \<open>NewJob\<close>

text \<open>
  Lines 167 to 172: the value of \<open>shouldShutdown\<close> read under the lock decides
  whether the call returns \<open>(nil, ErrShutdown)\<close> at once.
\<close>

definition NewJob_call :: "int \<Rightarrow> system \<Rightarrow> system res" where
  "NewJob_call taskBacklog s =
     (if locked s then Blocked
      else if shouldShutdown s then Next s
      else Next (s\<lparr>submitting := submitting s @ [taskBacklog]\<rparr>))"

text \<open>
  Lines 173 to 179: allocate the job and send it on \<open>w.queue\<close>. The job is given
  the next free index. The scheduler is parked on the queue when it is at line 57.
  If the send passes the job to the parked scheduler, the scheduler has received it.
\<close>

definition new_Job :: "nat \<Rightarrow> Job" where
  "new_Job taskBacklog =
     \<lparr>tasks = make_chan taskBacklog, completed = False, result = make_chan 1,
      callback = NoCallback\<rparr>"

definition NewJob_enqueue :: "int \<Rightarrow> system \<Rightarrow> (nat \<times> system) res" where
  "NewJob_enqueue taskBacklog s =
     (if taskBacklog < 0 then Panic
      else let j = length (jobs s) in
        case chan_send (sched s = SchedRecv) j (queue s) of
          Next (q, handed) \<Rightarrow>
            Next (j, s\<lparr>queue := q, jobs := jobs s @ [new_Job (nat taskBacklog)],
                       sched := (if handed then SchedCheck j else sched s)\<rparr>)
        | Panic \<Rightarrow> Panic
        | Blocked \<Rightarrow> Blocked)"

text \<open>The send of the \<open>k\<close>-th call that is past its check.\<close>

definition NewJob_send :: "nat \<Rightarrow> system \<Rightarrow> system res" where
  "NewJob_send k s =
     (if length (submitting s) \<le> k then Blocked
      else case NewJob_enqueue (submitting s ! k) s of
        Next (j, s') \<Rightarrow> Next (s'\<lparr>submitting := take k (submitting s) @ drop (Suc k) (submitting s)\<rparr>)
      | Panic \<Rightarrow> Panic
      | Blocked \<Rightarrow> Blocked)"

text \<open>
  A whole call of \<open>NewJob\<close> with nothing else running in between, and what it
  returns: the job pointer (or \<open>nil\<close>) and the error (or \<open>nil\<close>).
\<close>

definition NewJob :: "int \<Rightarrow> system \<Rightarrow> ((nat option \<times> error option) \<times> system) res" where
  "NewJob taskBacklog s =
     (if locked s then Blocked
      else if shouldShutdown s then Next ((None, Some ErrShutdown), s)
      else case NewJob_enqueue taskBacklog s of
        Next (j, s') \<Rightarrow> Next ((Some j, None), s')
      | Panic \<Rightarrow> Panic
      | Blocked \<Rightarrow> Blocked)"

subsection \<open>Go, Done, Wait\<close>

text \<open>
  \<open>j.tasks <- f\<close>. The scheduler is parked on \<open>j.tasks\<close> when it is at line 68 for
  this job.
\<close>

definition Go :: "nat \<Rightarrow> task \<Rightarrow> system \<Rightarrow> system res" where
  "Go j f s =
     (if length (jobs s) \<le> j then Blocked
      else case chan_send (sched s = SchedDrain j) f (tasks (job s j)) of
        Next (c, handed) \<Rightarrow>
          Next ((set_job j ((job s j)\<lparr>tasks := c\<rparr>) s)
                  \<lparr>sched := (if handed then SchedAdd j f else sched s)\<rparr>)
      | Panic \<Rightarrow> Panic
      | Blocked \<Rightarrow> Blocked)"

text \<open>\<open>Done(f)\<close>; \<open>has_f\<close> says that \<open>f\<close> is not \<open>nil\<close>.\<close>

definition Done :: "nat \<Rightarrow> bool \<Rightarrow> system \<Rightarrow> system res" where
  "Done j has_f s =
     (if length (jobs s) \<le> j then Blocked
      else case chan_close (tasks (job s j)) of
        Next c \<Rightarrow>
          Next (set_job j ((job s j)\<lparr>tasks := c,
                  callback := (if has_f then CallbackWaiting else callback (job s j))\<rparr>) s)
      | Panic \<Rightarrow> Panic
      | Blocked \<Rightarrow> Blocked)"

text \<open>The goroutine of lines 153 to 156.\<close>

definition callback_step :: "nat \<Rightarrow> system \<Rightarrow> system res" where
  "callback_step j s =
     (if length (jobs s) \<le> j then Blocked
      else if callback (job s j) = CallbackWaiting \<and> completed (job s j)
      then Next (set_job j ((job s j)\<lparr>callback := CallbackRan\<rparr>) s)
      else Blocked)"

text \<open>\<open>Wait()\<close> returns what it receives from \<open>j.result\<close>, a channel nobody closes.\<close>

definition Wait :: "nat \<Rightarrow> system \<Rightarrow> (error option \<times> system) res" where
  "Wait j s =
     (if length (jobs s) \<le> j then Blocked
      else case chan_recv (result (job s j)) of
        Got r c \<Rightarrow> Next (r, set_job j ((job s j)\<lparr>result := c\<rparr>) s)
      | Drained \<Rightarrow> Next (None, s)
      | Empty \<Rightarrow> Blocked)"

subsection \<open>Interleaving\<close>

text \<open>
  An event names the goroutine that takes its next step (or the two goroutines that
  meet on an unbuffered channel). A run is a list of events, each of which must be
  able to happen.
\<close>

datatype event =
    Sched
  | Dispatch nat
  | Work nat
  | Confirm nat
  | StopCall
  | NewJobCall int
  | NewJobSend nat
  | GoCall nat task
  | DoneCall nat bool
  | CallbackRun nat
  | WaitCall nat

fun step :: "system \<Rightarrow> event \<Rightarrow> system res" where
  "step s Sched = processQueue_step s"
| "step s (Dispatch i) = dispatch i s"
| "step s (Work i) = startWorker_step i s"
| "step s (Confirm i) = confirm i s"
| "step s StopCall = Stop_step s"
| "step s (NewJobCall b) = NewJob_call b s"
| "step s (NewJobSend k) = NewJob_send k s"
| "step s (GoCall j f) = Go j f s"
| "step s (DoneCall j has_f) = Done j has_f s"
| "step s (CallbackRun j) = callback_step j s"
| "step s (WaitCall j) = (case Wait j s of Next (r, s') \<Rightarrow> Next s' | Panic \<Rightarrow> Panic | Blocked \<Rightarrow> Blocked)"

fun run :: "system \<Rightarrow> event list \<Rightarrow> system res" where
  "run s [] = Next s"
| "run s (e # es) = (case step s e of Next s' \<Rightarrow> run s' es | Panic \<Rightarrow> Panic | Blocked \<Rightarrow> Blocked)"

text \<open>A run of the pool from its construction.\<close>

definition run_New :: "int \<Rightarrow> int \<Rightarrow> event list \<Rightarrow> system res" where
  "run_New workers maxJobs es =
     (case New workers maxJobs of Next s \<Rightarrow> run s es | Panic \<Rightarrow> Panic | Blocked \<Rightarrow> Blocked)"

subsection \<open>Notions used in the invariants\<close>

text \<open>How many elements of a list satisfy a predicate.\<close>

definition cnt :: "('a \<Rightarrow> bool) \<Rightarrow> 'a list \<Rightarrow> int" where
  "cnt P xs = int (length (filter P xs))"

text \<open>A worker is busy from receiving a task until its \<open>w.sg.Done()\<close>.\<close>

fun busy :: "worker_pc \<Rightarrow> bool" where
  "busy (WCheck t) = True"
| "busy WSkip = True"
| "busy (WRun t) = True"
| "busy (WRecord e) = True"
| "busy WFinish = True"
| "busy WSelect = False"
| "busy WConfirm = False"
| "busy WStopped = False"
| "busy WExited = False"

text \<open>The task a worker holds and has not finished running or recording.\<close>

fun held :: "worker_pc \<Rightarrow> task option" where
  "held (WCheck t) = Some t"
| "held (WRun t) = Some t"
| "held (WRecord e) = Some (Some e)"
| "held _ = None"

text \<open>The job the scheduler has received from the queue and not yet resolved.\<close>

fun cur :: "sched_pc \<Rightarrow> nat option" where
  "cur SchedRecv = None"
| "cur (SchedCheck j) = Some j"
| "cur (SchedReject j) = Some j"
| "cur (SchedDrain j) = Some j"
| "cur (SchedAdd j t) = Some j"
| "cur (SchedSend j t) = Some j"
| "cur (SchedWait j) = Some j"
| "cur (SchedClose j) = Some j"
| "cur (SchedResult j) = Some j"
| "cur SchedAck = None"
| "cur SchedDone = None"

text \<open>The scheduler is in lines 68 to 72: tasks of the job may be with workers.\<close>

fun dispatching :: "sched_pc \<Rightarrow> bool" where
  "dispatching (SchedDrain j) = True"
| "dispatching (SchedAdd j t) = True"
| "dispatching (SchedSend j t) = True"
| "dispatching (SchedWait j) = True"
| "dispatching _ = False"

text \<open>The scheduler is not executing a job: it is outside lines 68 to 79.\<close>

fun between_jobs :: "sched_pc \<Rightarrow> bool" where
  "between_jobs SchedRecv = True"
| "between_jobs (SchedCheck j) = True"
| "between_jobs (SchedReject j) = True"
| "between_jobs SchedAck = True"
| "between_jobs SchedDone = True"
| "between_jobs _ = False"

fun sending :: "sched_pc \<Rightarrow> bool" where
  "sending (SchedSend j t) = True"
| "sending _ = False"

text \<open>The task the scheduler has taken from the job and not yet handed to a worker.\<close>

fun carried :: "sched_pc \<Rightarrow> task option" where
  "carried (SchedAdd j t) = Some t"
| "carried (SchedSend j t) = Some t"
| "carried _ = None"

text \<open>How many jobs the scheduler has resolved.\<close>

definition ndone :: "system \<Rightarrow> nat" where
  "ndone s = length (taken (queue s)) - (if cur (sched s) = None then 0 else 1)"

subsection \<open>Invariants\<close>

text \<open>
  The WaitGroup counter is the number of busy workers, plus one while the scheduler
  is between \<open>w.sg.Add(1)\<close> and the hand-over of the task. Outside lines 68 to 72
  no worker is busy, and outside lines 68 to 79 the error slot is empty.
\<close>

definition inv_sg :: "system \<Rightarrow> bool" where
  "inv_sg s \<longleftrightarrow>
     length (wrk s) = nat (count s) \<and>
     sg s = cnt busy (wrk s) + (if sending (sched s) then 1 else 0) \<and>
     (\<not> dispatching (sched s) \<longrightarrow> cnt busy (wrk s) = 0) \<and>
     (between_jobs (sched s) \<longrightarrow> err s = None)"

text \<open>
  The queue has carried the jobs in the order of their allocation; the scheduler's
  job is the last one it received. A job the scheduler has resolved has exactly one
  value on its \<open>result\<close> channel; a job it has not resolved has none, and its
  \<open>completed\<close> is closed only while the scheduler is at lines 77 to 79 for it.
\<close>

definition inv_queue :: "system \<Rightarrow> bool" where
  "inv_queue s \<longleftrightarrow>
     sent (queue s) = [0..<length (jobs s)] \<and>
     (\<forall>j. cur (sched s) = Some j \<longrightarrow> length (taken (queue s)) = Suc j) \<and>
     (\<forall>j < length (jobs s).
        cap (result (job s j)) = 1 \<and> \<not> closed (result (job s j)) \<and>
        (j < ndone s \<longrightarrow> length (sent (result (job s j))) = 1) \<and>
        (ndone s \<le> j \<longrightarrow>
           sent (result (job s j)) = [] \<and> (completed (job s j) \<longleftrightarrow> sched s = SchedResult j)))"

text \<open>How far the caller of \<open>Stop\<close> has come.\<close>

fun stage :: "stop_pc \<Rightarrow> nat" where
  "stage StopNotCalled = 0"
| "stage StopCloseQueue = 1"
| "stage StopWaitAck = 2"
| "stage StopCloseWorkers = 3"
| "stage (StopLoop k) = 4"
| "stage StopReturned = 5"

text \<open>A worker that has confirmed its end to \<open>Stop\<close>, or is about to.\<close>

fun stopped :: "worker_pc \<Rightarrow> bool" where
  "stopped WStopped = True"
| "stopped _ = False"

fun leaving :: "worker_pc \<Rightarrow> bool" where
  "leaving WConfirm = True"
| "leaving WStopped = True"
| "leaving _ = False"

text \<open>
  The flags and the closed channels follow the progress of \<open>Stop\<close>; the scheduler
  leaves its loop only when the queue is closed and empty; \<open>ackShutdown\<close> is closed
  exactly when the scheduler has ended; the loop variable of \<open>Stop\<close> counts the
  workers that have confirmed.
\<close>

definition inv_stop :: "system \<Rightarrow> bool" where
  "inv_stop s \<longleftrightarrow>
     length (wrk s) = nat (count s) \<and>
     (shouldShutdown s \<longleftrightarrow> 1 \<le> stage (stop s)) \<and>
     (closed (queue s) \<longleftrightarrow> 2 \<le> stage (stop s)) \<and>
     (sched s = SchedAck \<or> sched s = SchedDone \<longrightarrow> closed (queue s) \<and> buf (queue s) = []) \<and>
     (triggeredShutdown s \<longleftrightarrow> ackShutdown s) \<and>
     (ackShutdown s \<longleftrightarrow> sched s = SchedDone) \<and>
     (3 \<le> stage (stop s) \<longrightarrow> ackShutdown s) \<and>
     (\<forall>j. sched s = SchedReject j \<longrightarrow> shouldShutdown s) \<and>
     (stopWorkers s \<longleftrightarrow> 4 \<le> stage (stop s)) \<and>
     (\<not> stopWorkers s \<longrightarrow> cnt leaving (wrk s) = 0) \<and>
     (\<forall>k. stop s = StopLoop k \<longrightarrow> k = cnt stopped (wrk s)) \<and>
     (stop s = StopReturned \<longrightarrow> cnt stopped (wrk s) = int (length (wrk s)))"

text \<open>
  Every task with the scheduler or a worker, and the error in the slot, come from
  the job the scheduler is executing; an error on a job's \<open>result\<close> channel is
  \<open>ErrShutdown\<close> or was returned by a task of that job.
\<close>

definition inv_tasks :: "system \<Rightarrow> bool" where
  "inv_tasks s \<longleftrightarrow>
     (\<forall>j. cur (sched s) = Some j \<longrightarrow>
        (\<forall>e. err s = Some e \<longrightarrow> Some e \<in> set (sent (tasks (job s j)))) \<and>
        (\<forall>t. carried (sched s) = Some t \<longrightarrow> t \<in> set (sent (tasks (job s j)))) \<and>
        (\<forall>i < length (wrk s). \<forall>t. held (wrk s ! i) = Some t \<longrightarrow>
           t \<in> set (sent (tasks (job s j))))) \<and>
     (\<forall>j < length (jobs s). \<forall>e. Some e \<in> set (sent (result (job s j))) \<longrightarrow>
        e = ErrShutdown \<or> Some e \<in> set (sent (tasks (job s j))))"

definition inv :: "system \<Rightarrow> bool" where
  "inv s \<longleftrightarrow> inv_sg s \<and> inv_queue s \<and> inv_stop s \<and> inv_tasks s"

text \<open>
  The WaitGroup counter never exceeds the number of tasks the scheduler has taken
  from the job it is executing.
\<close>

fun adding :: "sched_pc \<Rightarrow> bool" where
  "adding (SchedAdd j t) = True"
| "adding _ = False"

definition inv_bound :: "system \<Rightarrow> bool" where
  "inv_bound s \<longleftrightarrow>
     (\<forall>j. cur (sched s) = Some j \<longrightarrow>
        sg s + (if adding (sched s) then 1 else 0) \<le> int (length (taken (tasks (job s j)))))"

subsection \<open>Schedules in which the pool runs on its own\<close>

text \<open>
  The scheduler rejects \<open>K\<close> queued jobs: for each one it receives the job (line
  57), reads the flag (lines 59 to 61) and sends \<open>ErrShutdown\<close> (line 63).
\<close>

definition reject_events :: "nat \<Rightarrow> event list" where
  "reject_events K = concat (replicate K [Sched, Sched, Sched])"

text \<open>
  The workers \<open>k\<close> to \<open>n - 1\<close>, one after the other, take the first case of their
  \<open>select\<close> and hand their confirmation to the loop of \<open>Stop\<close>.
\<close>

definition confirm_events :: "nat \<Rightarrow> nat \<Rightarrow> event list" where
  "confirm_events k n = concat (map (\<lambda>i. [Work i, Confirm i]) [k..<n])"

text \<open>
  A whole call of \<open>Stop\<close> on a pool of \<open>n\<close> workers with \<open>K\<close> jobs in the queue:
  \<open>Stop\<close> sets the flag and closes the queue, the scheduler rejects the \<open>K\<close> jobs,
  leaves its loop and acknowledges, \<open>Stop\<close> receives the acknowledgment and closes
  \<open>stopWorkers\<close>, the workers confirm, \<open>Stop\<close> returns.
\<close>

definition shutdown_events :: "nat \<Rightarrow> nat \<Rightarrow> event list" where
  "shutdown_events K n =
     [StopCall, StopCall] @ reject_events K @ [Sched, Sched, StopCall, StopCall] @
     confirm_events 0 n @ [StopCall]"

text \<open>A job after line 63: \<open>ErrShutdown\<close> is in its \<open>result\<close> channel.\<close>

definition rejected_Job :: "Job \<Rightarrow> Job" where
  "rejected_Job x = x\<lparr>result := (result x)\<lparr>buf := [Some ErrShutdown]\<rparr>\<rparr>"

text \<open>
  Worker \<open>i\<close> serves the tasks \<open>ts\<close> one after the other. For each task the
  scheduler receives it (line 68), adds to the WaitGroup (line 69) and hands it to
  the worker (lines 70 and 99); the worker reads the error slot (lines 101 to 103),
  calls the task (line 110), stores its error if it returns one (lines 111 to 115)
  and calls \<open>w.sg.Done()\<close> (line 117).
\<close>

definition serve_events :: "nat \<Rightarrow> task list \<Rightarrow> event list" where
  "serve_events i ts =
     concat (map (\<lambda>t. [Sched, Sched, Dispatch i, Work i, Work i] @
                      (case t of Some e \<Rightarrow> [Work i] | None \<Rightarrow> []) @ [Work i]) ts)"

text \<open>
  The scheduler executes a job whose tasks \<open>ts\<close> wait in the closed \<open>tasks\<close>
  channel: it reads the flag, has worker \<open>i\<close> serve the tasks, finds the channel
  drained, passes \<open>w.sg.Wait()\<close> and runs lines 75 to 79.
\<close>

definition execute_events :: "nat \<Rightarrow> task list \<Rightarrow> event list" where
  "execute_events i ts = [Sched] @ serve_events i ts @ [Sched, Sched, Sched, Sched]"

text \<open>
  What the error slot holds after tasks have been served of which only the last one
  may fail, and a job after lines 68 to 79 in which the tasks \<open>ts\<close> were taken and
  \<open>r\<close> was sent as the outcome.
\<close>

definition outcome_of :: "task list \<Rightarrow> error option" where
  "outcome_of ts = (if ts = [] then None else last ts)"

definition executed_Job :: "task list \<Rightarrow> error option \<Rightarrow> Job \<Rightarrow> Job" where
  "executed_Job ts r x =
     x\<lparr>tasks := (tasks x)\<lparr>taken := taken (tasks x) @ ts, buf := []\<rparr>, completed := True,
       result := (result x)\<lparr>buf := [r]\<rparr>\<rparr>"

section \<open>What each step does\<close>

lemmas chan_defs = make_chan_def chan_send_def chan_recv_def chan_close_def sent_def
lemmas aux_defs = job_def set_job_def set_wrk_def locked_def

lemma chan_recv_Got:
  "chan_recv c = Got v c' \<longleftrightarrow> (\<exists>vs. buf c = v # vs \<and> c' = c\<lparr>taken := taken c @ [v], buf := vs\<rparr>)"
  by (auto simp: chan_recv_def split: list.splits)

lemma chan_recv_Drained: "chan_recv c = Drained \<longleftrightarrow> buf c = [] \<and> closed c"
  by (auto simp: chan_recv_def split: list.splits)

lemma chan_send_Next:
  "chan_send p v c = Next (c', h) \<longleftrightarrow>
     \<not> closed c \<and>
     (if length (buf c) < cap c then c' = c\<lparr>buf := buf c @ [v]\<rparr> \<and> \<not> h
      else p \<and> buf c = [] \<and> c' = c\<lparr>taken := taken c @ [v]\<rparr> \<and> h)"
  by (auto simp: chan_send_def)

lemma chan_close_Next: "chan_close c = Next c' \<longleftrightarrow> \<not> closed c \<and> c' = c\<lparr>closed := True\<rparr>"
  by (auto simp: chan_close_def)

lemma processQueue_step_cases:
  assumes "processQueue_step s = Next s'"
  obtains
    (recv) j q where "sched s = SchedRecv" "chan_recv (queue s) = Got j q"
      "s' = s\<lparr>queue := q, sched := SchedCheck j\<rparr>"
  | (drained) "sched s = SchedRecv" "chan_recv (queue s) = Drained" "s' = s\<lparr>sched := SchedAck\<rparr>"
  | (check) j where "sched s = SchedCheck j"
      "s' = s\<lparr>sched := (if shouldShutdown s then SchedReject j else SchedDrain j)\<rparr>"
  | (reject) j r h where "sched s = SchedReject j"
      "chan_send False (Some ErrShutdown) (result (job s j)) = Next (r, h)"
      "s' = (set_job j ((job s j)\<lparr>result := r\<rparr>) s)\<lparr>sched := SchedRecv\<rparr>"
  | (drain) j t c where "sched s = SchedDrain j" "chan_recv (tasks (job s j)) = Got t c"
      "s' = (set_job j ((job s j)\<lparr>tasks := c\<rparr>) s)\<lparr>sched := SchedAdd j t\<rparr>"
  | (drain_end) j where "sched s = SchedDrain j" "chan_recv (tasks (job s j)) = Drained"
      "s' = s\<lparr>sched := SchedWait j\<rparr>"
  | (add) j t where "sched s = SchedAdd j t" "0 \<le> sg s + 1"
      "s' = s\<lparr>sg := sg s + 1, sched := SchedSend j t\<rparr>"
  | (wait) j where "sched s = SchedWait j" "sg s = 0" "s' = s\<lparr>sched := SchedClose j\<rparr>"
  | (close) j where "sched s = SchedClose j" "\<not> completed (job s j)"
      "s' = (set_job j ((job s j)\<lparr>completed := True\<rparr>) s)\<lparr>sched := SchedResult j\<rparr>"
  | (result) j r h where "sched s = SchedResult j"
      "chan_send False (err s) (result (job s j)) = Next (r, h)"
      "s' = (set_job j ((job s j)\<lparr>result := r\<rparr>) s)\<lparr>err := None, sched := SchedRecv\<rparr>"
  | (ack) "sched s = SchedAck" "shouldShutdown s" "\<not> triggeredShutdown s" "\<not> ackShutdown s"
      "s' = s\<lparr>triggeredShutdown := True, ackShutdown := True, sched := SchedDone\<rparr>"
  | (no_ack) "sched s = SchedAck" "\<not> (shouldShutdown s \<and> \<not> triggeredShutdown s)"
      "s' = s\<lparr>sched := SchedDone\<rparr>"
proof (cases "sched s")
  case SchedRecv
  with assms recv drained show ?thesis
    by (auto simp: processQueue_step_def split: recv.splits)
next
  case (SchedCheck j)
  with assms check show ?thesis by (simp add: processQueue_step_def)
next
  case (SchedReject j)
  with assms reject show ?thesis
    by (auto simp: processQueue_step_def split: res.splits)
next
  case (SchedDrain j)
  with assms drain drain_end show ?thesis
    by (auto simp: processQueue_step_def split: recv.splits)
next
  case (SchedAdd j t)
  with assms add show ?thesis
    by (auto simp: processQueue_step_def split: if_splits)
next
  case (SchedSend j t)
  with assms show ?thesis by (simp add: processQueue_step_def)
next
  case (SchedWait j)
  with assms wait show ?thesis
    by (auto simp: processQueue_step_def split: if_splits)
next
  case (SchedClose j)
  with assms close show ?thesis
    by (auto simp: processQueue_step_def split: if_splits)
next
  case (SchedResult j)
  with assms result show ?thesis
    by (auto simp: processQueue_step_def split: res.splits)
next
  case SchedAck
  with assms ack no_ack show ?thesis
    by (auto simp: processQueue_step_def ack_block_def split: if_splits)
next
  case SchedDone
  with assms show ?thesis by (simp add: processQueue_step_def)
qed

lemma startWorker_step_cases:
  assumes "startWorker_step i s = Next s'"
  obtains
    (select) "i < length (wrk s)" "wrk s ! i = WSelect" "stopWorkers s"
      "s' = set_wrk i WConfirm s"
  | (check) t where "i < length (wrk s)" "wrk s ! i = WCheck t" "\<not> locked s"
      "s' = set_wrk i (if err s \<noteq> None then WSkip else WRun t) s"
  | (skip) "i < length (wrk s)" "wrk s ! i = WSkip" "0 \<le> sg s - 1"
      "s' = set_wrk i WExited (s\<lparr>sg := sg s - 1\<rparr>)"
  | (run) t where "i < length (wrk s)" "wrk s ! i = WRun t"
      "s' = set_wrk i (case t of Some e \<Rightarrow> WRecord e | None \<Rightarrow> WFinish) s"
  | (store) e where "i < length (wrk s)" "wrk s ! i = WRecord e" "\<not> locked s"
      "s' = set_wrk i WFinish (s\<lparr>err := (if err s = None then Some e else err s)\<rparr>)"
  | (finish) "i < length (wrk s)" "wrk s ! i = WFinish" "0 \<le> sg s - 1"
      "s' = set_wrk i WSelect (s\<lparr>sg := sg s - 1\<rparr>)"
proof -
  from assms have i: "i < length (wrk s)"
    by (simp add: startWorker_step_def split: if_splits)
  show ?thesis
  proof (cases "wrk s ! i")
    case WSelect
    with assms i select show ?thesis by (auto simp: startWorker_step_def split: if_splits)
  next
    case WConfirm
    with assms i show ?thesis by (simp add: startWorker_step_def)
  next
    case WStopped
    with assms i show ?thesis by (simp add: startWorker_step_def)
  next
    case (WCheck t)
    with assms i check show ?thesis by (auto simp: startWorker_step_def split: if_splits)
  next
    case WSkip
    with assms i skip show ?thesis by (auto simp: startWorker_step_def split: if_splits)
  next
    case WExited
    with assms i show ?thesis by (simp add: startWorker_step_def)
  next
    case (WRun t)
    with assms i run show ?thesis by (auto simp: startWorker_step_def split: if_splits)
  next
    case (WRecord e)
    with assms i store show ?thesis by (auto simp: startWorker_step_def split: if_splits)
  next
    case WFinish
    with assms i finish show ?thesis by (auto simp: startWorker_step_def split: if_splits)
  qed
qed

lemma dispatch_cases:
  assumes "dispatch i s = Next s'"
  obtains j t where "i < length (wrk s)" "sched s = SchedSend j t" "wrk s ! i = WSelect"
    "s' = set_wrk i (WCheck t) (s\<lparr>sched := SchedDrain j\<rparr>)"
  using assms
  by (auto simp: dispatch_def split: if_splits sched_pc.splits worker_pc.splits)

lemma confirm_cases:
  assumes "confirm i s = Next s'"
  obtains k where "i < length (wrk s)" "stop s = StopLoop k" "wrk s ! i = WConfirm" "k < count s"
    "s' = set_wrk i WStopped (s\<lparr>stop := StopLoop (k + 1)\<rparr>)"
  using assms
  by (auto simp: confirm_def split: if_splits stop_pc.splits worker_pc.splits)

lemma Stop_step_cases:
  assumes "Stop_step s = Next s'"
  obtains
    (flag) "stop s = StopNotCalled" "\<not> locked s"
      "s' = s\<lparr>shouldShutdown := True, stop := StopCloseQueue\<rparr>"
  | (close_queue) "stop s = StopCloseQueue" "\<not> closed (queue s)"
      "s' = s\<lparr>queue := (queue s)\<lparr>closed := True\<rparr>, stop := StopWaitAck\<rparr>"
  | (acked) "stop s = StopWaitAck" "ackShutdown s" "s' = s\<lparr>stop := StopCloseWorkers\<rparr>"
  | (close_workers) "stop s = StopCloseWorkers" "\<not> stopWorkers s"
      "s' = s\<lparr>stopWorkers := True, stop := StopLoop 0\<rparr>"
  | (return) k where "stop s = StopLoop k" "\<not> k < count s" "s' = s\<lparr>stop := StopReturned\<rparr>"
  using assms
  by (cases "stop s") (auto simp: Stop_step_def chan_close_def split: if_splits)

lemma NewJob_call_cases:
  assumes "NewJob_call b s = Next s'"
  obtains
    (refused) "\<not> locked s" "shouldShutdown s" "s' = s"
  | (passed) "\<not> locked s" "\<not> shouldShutdown s" "s' = s\<lparr>submitting := submitting s @ [b]\<rparr>"
  using assms by (auto simp: NewJob_call_def split: if_splits)

lemma NewJob_enqueue_cases:
  assumes "NewJob_enqueue b s = Next (j, s')"
  obtains
    (buffered) "0 \<le> b" "j = length (jobs s)" "\<not> closed (queue s)"
      "length (buf (queue s)) < cap (queue s)"
      "s' = s\<lparr>queue := (queue s)\<lparr>buf := buf (queue s) @ [j]\<rparr>,
                jobs := jobs s @ [new_Job (nat b)]\<rparr>"
  | (handed) "0 \<le> b" "j = length (jobs s)" "\<not> closed (queue s)"
      "sched s = SchedRecv" "buf (queue s) = []"
      "s' = s\<lparr>queue := (queue s)\<lparr>taken := taken (queue s) @ [j]\<rparr>,
                jobs := jobs s @ [new_Job (nat b)], sched := SchedCheck j\<rparr>"
  using assms
  by (auto simp: NewJob_enqueue_def Let_def chan_send_def split: if_splits)

lemma NewJob_send_cases:
  assumes "NewJob_send k s = Next s'"
  obtains j s1 where "k < length (submitting s)" "NewJob_enqueue (submitting s ! k) s = Next (j, s1)"
    "s' = s1\<lparr>submitting := take k (submitting s) @ drop (Suc k) (submitting s)\<rparr>"
  using assms
  by (auto simp: NewJob_send_def split: if_splits res.splits)

lemma Go_cases:
  assumes "Go j f s = Next s'"
  obtains
    (buffered) "j < length (jobs s)" "\<not> closed (tasks (job s j))"
      "length (buf (tasks (job s j))) < cap (tasks (job s j))"
      "s' = set_job j ((job s j)\<lparr>tasks := (tasks (job s j))\<lparr>buf := buf (tasks (job s j)) @ [f]\<rparr>\<rparr>) s"
  | (handed) "j < length (jobs s)" "\<not> closed (tasks (job s j))"
      "sched s = SchedDrain j" "buf (tasks (job s j)) = []"
      "s' = (set_job j ((job s j)\<lparr>tasks := (tasks (job s j))\<lparr>taken := taken (tasks (job s j)) @ [f]\<rparr>\<rparr>) s)
              \<lparr>sched := SchedAdd j f\<rparr>"
  using assms
  by (auto simp: Go_def chan_send_def set_job_def split: if_splits)

lemma Done_cases:
  assumes "Done j has_f s = Next s'"
  obtains "j < length (jobs s)" "\<not> closed (tasks (job s j))"
    "s' = set_job j ((job s j)\<lparr>tasks := (tasks (job s j))\<lparr>closed := True\<rparr>,
            callback := (if has_f then CallbackWaiting else callback (job s j))\<rparr>) s"
  using assms
  by (auto simp: Done_def chan_close_def split: if_splits)

lemma callback_step_cases:
  assumes "callback_step j s = Next s'"
  obtains "j < length (jobs s)" "callback (job s j) = CallbackWaiting" "completed (job s j)"
    "s' = set_job j ((job s j)\<lparr>callback := CallbackRan\<rparr>) s"
  using assms
  by (auto simp: callback_step_def split: if_splits)

lemma Wait_cases:
  assumes "Wait j s = Next (r, s')"
  obtains
    (got) c where "j < length (jobs s)" "chan_recv (result (job s j)) = Got r c"
      "s' = set_job j ((job s j)\<lparr>result := c\<rparr>) s"
  | (closed) "j < length (jobs s)" "chan_recv (result (job s j)) = Drained" "r = None" "s' = s"
  using assms
  by (auto simp: Wait_def split: if_splits recv.splits)

section \<open>Lemmas about counting\<close>

lemma cnt_Nil [simp]: "cnt P [] = 0"
  by (simp add: cnt_def)

lemma cnt_Cons [simp]: "cnt P (x # xs) = (if P x then 1 else 0) + cnt P xs"
  by (simp add: cnt_def)

lemma cnt_nonneg: "0 \<le> cnt P xs"
  by (simp add: cnt_def)

lemma cnt_le_length: "cnt P xs \<le> int (length xs)"
  by (simp add: cnt_def)

lemma cnt_update:
  "i < length xs \<Longrightarrow>
   cnt P (xs[i := y]) = cnt P xs - (if P (xs ! i) then 1 else 0) + (if P y then 1 else 0)"
proof (induction xs arbitrary: i)
  case Nil
  then show ?case by simp
next
  case (Cons x xs)
  then show ?case by (cases i) auto
qed

lemma cnt_zero_iff: "cnt P xs = 0 \<longleftrightarrow> (\<forall>x \<in> set xs. \<not> P x)"
  by (simp add: cnt_def filter_empty_conv)

lemma cnt_pos: "i < length xs \<Longrightarrow> P (xs ! i) \<Longrightarrow> 0 < cnt P xs"
  using cnt_zero_iff [of P xs] cnt_nonneg [of P xs] nth_mem [of i xs] by force

lemma cnt_all_iff: "cnt P xs = int (length xs) \<longleftrightarrow> (\<forall>x \<in> set xs. P x)"
proof (induction xs)
  case Nil
  then show ?case by simp
next
  case (Cons x xs)
  then show ?case using cnt_le_length [of P xs] by auto
qed

lemma cnt_replicate: "cnt P (replicate n x) = (if P x then int n else 0)"
  by (induction n) auto

lemma chan_send_unparked:
  "chan_send False v c = Next (r, h) \<longleftrightarrow>
     \<not> closed c \<and> length (buf c) < cap c \<and> r = c\<lparr>buf := buf c @ [v]\<rparr> \<and> \<not> h"
  by (auto simp: chan_send_def)

lemma step_cases:
  assumes "step s ev = Next s'"
  obtains
    (recv) j vs where "ev = Sched" "sched s = SchedRecv" "buf (queue s) = j # vs"
      "s' = s\<lparr>queue := (queue s)\<lparr>taken := taken (queue s) @ [j], buf := vs\<rparr>,
                sched := SchedCheck j\<rparr>"
  | (drained) "ev = Sched" "sched s = SchedRecv" "buf (queue s) = []" "closed (queue s)"
      "s' = s\<lparr>sched := SchedAck\<rparr>"
  | (check) j where "ev = Sched" "sched s = SchedCheck j"
      "s' = s\<lparr>sched := (if shouldShutdown s then SchedReject j else SchedDrain j)\<rparr>"
  | (reject) j where "ev = Sched" "sched s = SchedReject j" "\<not> closed (result (job s j))"
      "length (buf (result (job s j))) < cap (result (job s j))"
      "s' = (set_job j ((job s j)\<lparr>result := (result (job s j))
               \<lparr>buf := buf (result (job s j)) @ [Some ErrShutdown]\<rparr>\<rparr>) s)\<lparr>sched := SchedRecv\<rparr>"
  | (drain) j t vs where "ev = Sched" "sched s = SchedDrain j" "buf (tasks (job s j)) = t # vs"
      "s' = (set_job j ((job s j)\<lparr>tasks := (tasks (job s j))
               \<lparr>taken := taken (tasks (job s j)) @ [t], buf := vs\<rparr>\<rparr>) s)\<lparr>sched := SchedAdd j t\<rparr>"
  | (drain_end) j where "ev = Sched" "sched s = SchedDrain j" "buf (tasks (job s j)) = []"
      "closed (tasks (job s j))" "s' = s\<lparr>sched := SchedWait j\<rparr>"
  | (add) j t where "ev = Sched" "sched s = SchedAdd j t" "0 \<le> sg s + 1"
      "s' = s\<lparr>sg := sg s + 1, sched := SchedSend j t\<rparr>"
  | (wait) j where "ev = Sched" "sched s = SchedWait j" "sg s = 0" "s' = s\<lparr>sched := SchedClose j\<rparr>"
  | (fire) j where "ev = Sched" "sched s = SchedClose j" "\<not> completed (job s j)"
      "s' = (set_job j ((job s j)\<lparr>completed := True\<rparr>) s)\<lparr>sched := SchedResult j\<rparr>"
  | (result) j where "ev = Sched" "sched s = SchedResult j" "\<not> closed (result (job s j))"
      "length (buf (result (job s j))) < cap (result (job s j))"
      "s' = (set_job j ((job s j)\<lparr>result := (result (job s j))
               \<lparr>buf := buf (result (job s j)) @ [err s]\<rparr>\<rparr>) s)\<lparr>err := None, sched := SchedRecv\<rparr>"
  | (ack) "ev = Sched" "sched s = SchedAck" "shouldShutdown s" "\<not> triggeredShutdown s"
      "\<not> ackShutdown s"
      "s' = s\<lparr>triggeredShutdown := True, ackShutdown := True, sched := SchedDone\<rparr>"
  | (no_ack) "ev = Sched" "sched s = SchedAck" "\<not> (shouldShutdown s \<and> \<not> triggeredShutdown s)"
      "s' = s\<lparr>sched := SchedDone\<rparr>"
  | (dispatch) i j t where "ev = Dispatch i" "i < length (wrk s)" "sched s = SchedSend j t"
      "wrk s ! i = WSelect" "s' = set_wrk i (WCheck t) (s\<lparr>sched := SchedDrain j\<rparr>)"
  | (select) i where "ev = Work i" "i < length (wrk s)" "wrk s ! i = WSelect" "stopWorkers s"
      "s' = set_wrk i WConfirm s"
  | (look) i t where "ev = Work i" "i < length (wrk s)" "wrk s ! i = WCheck t" "\<not> locked s"
      "s' = set_wrk i (if err s \<noteq> None then WSkip else WRun t) s"
  | (skip) i where "ev = Work i" "i < length (wrk s)" "wrk s ! i = WSkip" "0 \<le> sg s - 1"
      "s' = set_wrk i WExited (s\<lparr>sg := sg s - 1\<rparr>)"
  | (run) i t where "ev = Work i" "i < length (wrk s)" "wrk s ! i = WRun t"
      "s' = set_wrk i (case t of Some e \<Rightarrow> WRecord e | None \<Rightarrow> WFinish) s"
  | (store) i e where "ev = Work i" "i < length (wrk s)" "wrk s ! i = WRecord e" "\<not> locked s"
      "s' = set_wrk i WFinish (s\<lparr>err := (if err s = None then Some e else err s)\<rparr>)"
  | (finish) i where "ev = Work i" "i < length (wrk s)" "wrk s ! i = WFinish" "0 \<le> sg s - 1"
      "s' = set_wrk i WSelect (s\<lparr>sg := sg s - 1\<rparr>)"
  | (confirm) i k where "ev = Confirm i" "i < length (wrk s)" "stop s = StopLoop k"
      "wrk s ! i = WConfirm" "k < count s"
      "s' = set_wrk i WStopped (s\<lparr>stop := StopLoop (k + 1)\<rparr>)"
  | (flag) "ev = StopCall" "stop s = StopNotCalled" "\<not> locked s"
      "s' = s\<lparr>shouldShutdown := True, stop := StopCloseQueue\<rparr>"
  | (close_queue) "ev = StopCall" "stop s = StopCloseQueue" "\<not> closed (queue s)"
      "s' = s\<lparr>queue := (queue s)\<lparr>closed := True\<rparr>, stop := StopWaitAck\<rparr>"
  | (acked) "ev = StopCall" "stop s = StopWaitAck" "ackShutdown s" "s' = s\<lparr>stop := StopCloseWorkers\<rparr>"
  | (close_workers) "ev = StopCall" "stop s = StopCloseWorkers" "\<not> stopWorkers s"
      "s' = s\<lparr>stopWorkers := True, stop := StopLoop 0\<rparr>"
  | (return) k where "ev = StopCall" "stop s = StopLoop k" "\<not> k < count s" "s' = s\<lparr>stop := StopReturned\<rparr>"
  | (refused) b where "ev = NewJobCall b" "\<not> locked s" "shouldShutdown s" "s' = s"
  | (passed) b where "ev = NewJobCall b" "\<not> locked s" "\<not> shouldShutdown s"
      "s' = s\<lparr>submitting := submitting s @ [b]\<rparr>"
  | (enqueue) k sub where "ev = NewJobSend k" "k < length (submitting s)" "0 \<le> submitting s ! k"
      "\<not> closed (queue s)" "length (buf (queue s)) < cap (queue s)"
      "s' = s\<lparr>queue := (queue s)\<lparr>buf := buf (queue s) @ [length (jobs s)]\<rparr>,
                jobs := jobs s @ [new_Job (nat (submitting s ! k))], submitting := sub\<rparr>"
  | (handover) k sub where "ev = NewJobSend k" "k < length (submitting s)" "0 \<le> submitting s ! k"
      "\<not> closed (queue s)" "sched s = SchedRecv" "buf (queue s) = []"
      "s' = s\<lparr>queue := (queue s)\<lparr>taken := taken (queue s) @ [length (jobs s)]\<rparr>,
                jobs := jobs s @ [new_Job (nat (submitting s ! k))],
                sched := SchedCheck (length (jobs s)), submitting := sub\<rparr>"
  | (go) j f where "ev = GoCall j f" "j < length (jobs s)" "\<not> closed (tasks (job s j))"
      "length (buf (tasks (job s j))) < cap (tasks (job s j))"
      "s' = set_job j ((job s j)\<lparr>tasks := (tasks (job s j))\<lparr>buf := buf (tasks (job s j)) @ [f]\<rparr>\<rparr>) s"
  | (go_handed) j f where "ev = GoCall j f" "j < length (jobs s)" "\<not> closed (tasks (job s j))"
      "sched s = SchedDrain j" "buf (tasks (job s j)) = []"
      "s' = (set_job j ((job s j)\<lparr>tasks := (tasks (job s j))
               \<lparr>taken := taken (tasks (job s j)) @ [f]\<rparr>\<rparr>) s)\<lparr>sched := SchedAdd j f\<rparr>"
  | (finalize) j has_f where "ev = DoneCall j has_f" "j < length (jobs s)" "\<not> closed (tasks (job s j))"
      "s' = set_job j ((job s j)\<lparr>tasks := (tasks (job s j))\<lparr>closed := True\<rparr>,
              callback := (if has_f then CallbackWaiting else callback (job s j))\<rparr>) s"
  | (callback) j where "ev = CallbackRun j" "j < length (jobs s)" "callback (job s j) = CallbackWaiting"
      "completed (job s j)" "s' = set_job j ((job s j)\<lparr>callback := CallbackRan\<rparr>) s"
  | (wait_got) j r vs where "ev = WaitCall j" "j < length (jobs s)" "buf (result (job s j)) = r # vs"
      "s' = set_job j ((job s j)\<lparr>result := (result (job s j))
              \<lparr>taken := taken (result (job s j)) @ [r], buf := vs\<rparr>\<rparr>) s"
  | (wait_closed) j where "ev = WaitCall j" "j < length (jobs s)" "buf (result (job s j)) = []"
      "closed (result (job s j))" "s' = s"
proof (cases ev)
  case Sched
  with assms have "processQueue_step s = Next s'" by simp
  then show ?thesis
  proof (cases rule: processQueue_step_cases)
    case (recv j q)
    from recv(2) obtain vs where "buf (queue s) = j # vs"
      and "q = (queue s)\<lparr>taken := taken (queue s) @ [j], buf := vs\<rparr>"
      by (auto simp: chan_recv_Got)
    with Sched recv(1,3) show ?thesis by (intro that(1) [of j vs]) simp_all
  next
    case drained
    with Sched show ?thesis by (intro that(2)) (simp_all add: chan_recv_Drained)
  next
    case (check j)
    with Sched show ?thesis by (intro that(3) [of j]) simp_all
  next
    case (reject j r h)
    with Sched show ?thesis by (intro that(4) [of j]) (simp_all add: chan_send_unparked)
  next
    case (drain j t c)
    from drain(2) obtain vs where "buf (tasks (job s j)) = t # vs"
      and "c = (tasks (job s j))\<lparr>taken := taken (tasks (job s j)) @ [t], buf := vs\<rparr>"
      by (auto simp: chan_recv_Got)
    with Sched drain(1,3) show ?thesis by (intro that(5) [of j t vs]) simp_all
  next
    case (drain_end j)
    with Sched show ?thesis by (intro that(6) [of j]) (simp_all add: chan_recv_Drained)
  next
    case (add j t)
    with Sched show ?thesis by (intro that(7) [of j t]) simp_all
  next
    case (wait j)
    with Sched show ?thesis by (intro that(8) [of j]) simp_all
  next
    case (close j)
    with Sched show ?thesis by (intro that(9) [of j]) simp_all
  next
    case (result j r h)
    with Sched show ?thesis by (intro that(10) [of j]) (simp_all add: chan_send_unparked)
  next
    case ack
    with Sched show ?thesis by (intro that(11)) simp_all
  next
    case no_ack
    with Sched show ?thesis by (intro that(12)) simp_all
  qed
next
  case (Dispatch i)
  with assms have "dispatch i s = Next s'" by simp
  then show ?thesis
  proof (cases rule: dispatch_cases)
    case (1 j t)
    with Dispatch show ?thesis by (intro that(13) [of i j t]) simp_all
  qed
next
  case (Work i)
  with assms have "startWorker_step i s = Next s'" by simp
  then show ?thesis
  proof (cases rule: startWorker_step_cases)
    case select
    with Work show ?thesis by (intro that(14) [of i]) simp_all
  next
    case (check t)
    with Work show ?thesis by (intro that(15) [of i t]) simp_all
  next
    case skip
    with Work show ?thesis by (intro that(16) [of i]) simp_all
  next
    case (run t)
    with Work show ?thesis by (intro that(17) [of i t]) simp_all
  next
    case (store e)
    with Work show ?thesis by (intro that(18) [of i e]) simp_all
  next
    case finish
    with Work show ?thesis by (intro that(19) [of i]) simp_all
  qed
next
  case (Confirm i)
  with assms have "confirm i s = Next s'" by simp
  then show ?thesis
  proof (cases rule: confirm_cases)
    case (1 k)
    with Confirm show ?thesis by (intro that(20) [of i k]) simp_all
  qed
next
  case StopCall
  with assms have "Stop_step s = Next s'" by simp
  then show ?thesis
  proof (cases rule: Stop_step_cases)
    case flag
    with StopCall show ?thesis by (intro that(21)) simp_all
  next
    case close_queue
    with StopCall show ?thesis by (intro that(22)) simp_all
  next
    case acked
    with StopCall show ?thesis by (intro that(23)) simp_all
  next
    case close_workers
    with StopCall show ?thesis by (intro that(24)) simp_all
  next
    case (return k)
    with StopCall show ?thesis by (intro that(25) [of k]) simp_all
  qed
next
  case (NewJobCall b)
  with assms have "NewJob_call b s = Next s'" by simp
  then show ?thesis
  proof (cases rule: NewJob_call_cases)
    case refused
    with NewJobCall show ?thesis by (intro that(26) [of b]) simp_all
  next
    case passed
    with NewJobCall show ?thesis by (intro that(27) [of b]) simp_all
  qed
next
  case (NewJobSend k)
  with assms have "NewJob_send k s = Next s'" by simp
  then show ?thesis
  proof (cases rule: NewJob_send_cases)
    case (1 j s1)
    from 1(2) show ?thesis
    proof (cases rule: NewJob_enqueue_cases)
      case buffered
      with NewJobSend 1(1,3) show ?thesis
        by (intro that(28) [of k "take k (submitting s) @ drop (Suc k) (submitting s)"]) simp_all
    next
      case handed
      with NewJobSend 1(1,3) show ?thesis
        by (intro that(29) [of k "take k (submitting s) @ drop (Suc k) (submitting s)"]) simp_all
    qed
  qed
next
  case (GoCall j f)
  with assms have "Go j f s = Next s'" by simp
  then show ?thesis
  proof (cases rule: Go_cases)
    case buffered
    with GoCall show ?thesis by (intro that(30) [of j f]) simp_all
  next
    case handed
    with GoCall show ?thesis by (intro that(31) [of j f]) simp_all
  qed
next
  case (DoneCall j has_f)
  with assms have "Done j has_f s = Next s'" by simp
  then show ?thesis
  proof (cases rule: Done_cases)
    case 1
    with DoneCall show ?thesis by (intro that(32) [of j has_f]) simp_all
  qed
next
  case (CallbackRun j)
  with assms have "callback_step j s = Next s'" by simp
  then show ?thesis
  proof (cases rule: callback_step_cases)
    case 1
    with CallbackRun show ?thesis by (intro that(33) [of j]) simp_all
  qed
next
  case (WaitCall j)
  with assms obtain r where "Wait j s = Next (r, s')" by (auto split: res.splits)
  then show ?thesis
  proof (cases rule: Wait_cases)
    case (got c)
    from got(2) obtain vs where "buf (result (job s j)) = r # vs"
      and "c = (result (job s j))\<lparr>taken := taken (result (job s j)) @ [r], buf := vs\<rparr>"
      by (auto simp: chan_recv_Got)
    with WaitCall got(1,3) show ?thesis by (intro that(34) [of j r vs]) simp_all
  next
    case closed
    with WaitCall show ?thesis by (intro that(35) [of j]) (simp_all add: chan_recv_Drained)
  qed
qed

section \<open>Invariant: The WaitGroup counter and the error slot\<close>

lemma inv_sg_New: "New w m = Next s \<Longrightarrow> inv_sg s"
  by (auto simp: New_def inv_sg_def cnt_replicate split: if_splits)

lemma sending_dispatching: "sending p \<Longrightarrow> dispatching p"
  by (cases p) simp_all

lemma between_jobs_not_dispatching: "between_jobs p \<Longrightarrow> \<not> dispatching p"
  by (cases p) simp_all

lemma inv_sg_processQueue:
  assumes "inv_sg s" and "processQueue_step s = Next s'"
  shows "inv_sg s'"
  using assms(2)
proof (cases rule: processQueue_step_cases)
  case (wait j)
  with assms(1) show ?thesis by (simp add: inv_sg_def)
qed (use assms(1) in \<open>auto simp: inv_sg_def set_job_def\<close>)

lemma inv_sg_busy:
  assumes "inv_sg s" and "i < length (wrk s)" and "busy (wrk s ! i)"
  shows "dispatching (sched s)" and "\<not> between_jobs (sched s)"
proof -
  from assms(2,3) have "0 < cnt busy (wrk s)" by (rule cnt_pos)
  with assms(1) show "dispatching (sched s)" by (auto simp: inv_sg_def)
  then show "\<not> between_jobs (sched s)" using between_jobs_not_dispatching by blast
qed

lemma inv_sg_startWorker:
  assumes "inv_sg s" and "startWorker_step i s = Next s'"
  shows "inv_sg s'"
  using assms(2)
proof (cases rule: startWorker_step_cases)
  case select
  with assms(1) show ?thesis by (simp add: inv_sg_def set_wrk_def cnt_update)
next
  case (check t)
  with assms(1) inv_sg_busy [OF assms(1) check(1)] show ?thesis
    by (simp add: inv_sg_def set_wrk_def cnt_update)
next
  case skip
  with assms(1) inv_sg_busy [OF assms(1) skip(1)] show ?thesis
    by (simp add: inv_sg_def set_wrk_def cnt_update)
next
  case (run t)
  with assms(1) inv_sg_busy [OF assms(1) run(1)] show ?thesis
    by (simp add: inv_sg_def set_wrk_def cnt_update split: option.splits)
next
  case (store e)
  with assms(1) inv_sg_busy [OF assms(1) store(1)] show ?thesis
    by (simp add: inv_sg_def set_wrk_def cnt_update)
next
  case finish
  with assms(1) inv_sg_busy [OF assms(1) finish(1)] show ?thesis
    by (simp add: inv_sg_def set_wrk_def cnt_update)
qed

lemma inv_sg_dispatch:
  assumes "inv_sg s" and "dispatch i s = Next s'"
  shows "inv_sg s'"
  using assms(2)
proof (cases rule: dispatch_cases)
  case (1 j t)
  with assms(1) show ?thesis by (simp add: inv_sg_def set_wrk_def cnt_update)
qed

lemma inv_sg_confirm:
  assumes "inv_sg s" and "confirm i s = Next s'"
  shows "inv_sg s'"
  using assms(2)
proof (cases rule: confirm_cases)
  case (1 k)
  with assms(1) show ?thesis by (simp add: inv_sg_def set_wrk_def cnt_update)
qed

lemma inv_sg_Stop:
  assumes "inv_sg s" and "Stop_step s = Next s'"
  shows "inv_sg s'"
  using assms(2) by (cases rule: Stop_step_cases) (use assms(1) in \<open>simp_all add: inv_sg_def\<close>)

lemma inv_sg_NewJob_call:
  assumes "inv_sg s" and "NewJob_call b s = Next s'"
  shows "inv_sg s'"
  using assms(2) by (cases rule: NewJob_call_cases) (use assms(1) in \<open>simp_all add: inv_sg_def\<close>)

lemma inv_sg_NewJob_send:
  assumes "inv_sg s" and "NewJob_send k s = Next s'"
  shows "inv_sg s'"
  using assms(2)
proof (cases rule: NewJob_send_cases)
  case (1 j s1)
  from 1(2) have "inv_sg s1"
    by (cases rule: NewJob_enqueue_cases) (use assms(1) in \<open>simp_all add: inv_sg_def\<close>)
  with 1(3) show ?thesis by (simp add: inv_sg_def)
qed

lemma inv_sg_Go:
  assumes "inv_sg s" and "Go j f s = Next s'"
  shows "inv_sg s'"
  using assms(2)
  by (cases rule: Go_cases) (use assms(1) in \<open>simp_all add: inv_sg_def set_job_def\<close>)

lemma inv_sg_Done:
  assumes "inv_sg s" and "Done j f s = Next s'"
  shows "inv_sg s'"
  using assms(2)
  by (cases rule: Done_cases) (use assms(1) in \<open>simp_all add: inv_sg_def set_job_def\<close>)

lemma inv_sg_callback:
  assumes "inv_sg s" and "callback_step j s = Next s'"
  shows "inv_sg s'"
  using assms(2)
  by (cases rule: callback_step_cases) (use assms(1) in \<open>simp_all add: inv_sg_def set_job_def\<close>)

lemma inv_sg_Wait:
  assumes "inv_sg s" and "Wait j s = Next (r, s')"
  shows "inv_sg s'"
  using assms(2)
  by (cases rule: Wait_cases) (use assms(1) in \<open>simp_all add: inv_sg_def set_job_def\<close>)

lemma inv_sg_step:
  assumes "inv_sg s" and "step s ev = Next s'"
  shows "inv_sg s'"
proof (cases ev)
  case (WaitCall j)
  with assms(2) obtain r where "Wait j s = Next (r, s')"
    by (auto split: res.splits)
  with assms(1) show ?thesis by (rule inv_sg_Wait)
qed (use assms in \<open>auto intro: inv_sg_processQueue inv_sg_startWorker inv_sg_dispatch
   inv_sg_confirm inv_sg_Stop inv_sg_NewJob_call inv_sg_NewJob_send inv_sg_Go inv_sg_Done
   inv_sg_callback\<close>)

section \<open>Invariant: The queue and the outcome of every job\<close>

lemma inv_queue_New: "New w m = Next s \<Longrightarrow> inv_queue s"
  by (auto simp: New_def inv_queue_def make_chan_def sent_def split: if_splits)

lemma upt_split_head:
  assumes "xs @ j # ys = [0..<n]"
  shows "j = length xs"
proof -
  from assms have "length (xs @ j # ys) = n" by simp
  then have "length xs < n" by simp
  then have "[0..<n] ! length xs = length xs" by simp
  with assms show ?thesis by (metis nth_append_length)
qed

lemma inv_queue_cur:
  assumes "inv_queue s" and "cur (sched s) = Some j"
  shows "j < length (jobs s)" and "ndone s = j" and "length (taken (queue s)) = Suc j"
proof -
  from assms show t: "length (taken (queue s)) = Suc j" by (simp add: inv_queue_def)
  from assms(1) have "length (sent (queue s)) = length (jobs s)" by (simp add: inv_queue_def)
  with t show "j < length (jobs s)" by (simp add: sent_def)
  from assms(2) t show "ndone s = j" by (simp add: ndone_def)
qed

lemma inv_queue_unresolved:
  assumes "inv_queue s" and "cur (sched s) = Some j"
  shows "cap (result (job s j)) = 1" and "\<not> closed (result (job s j))"
    and "buf (result (job s j)) = []" and "taken (result (job s j)) = []"
    and "completed (job s j) \<longleftrightarrow> sched s = SchedResult j"
  using assms(1) inv_queue_cur [OF assms]
  by (auto simp: inv_queue_def sent_def)

lemma inv_queue_processQueue:
  assumes "inv_queue s" and "processQueue_step s = Next s'"
  shows "inv_queue s'"
  using assms(2)
proof (cases rule: processQueue_step_cases)
  case (recv j q)
  from recv(2) obtain vs where b: "buf (queue s) = j # vs"
    and q: "q = (queue s)\<lparr>taken := taken (queue s) @ [j], buf := vs\<rparr>"
    by (auto simp: chan_recv_Got)
  from assms(1) b have "j = length (taken (queue s))"
    by (auto simp: inv_queue_def sent_def intro: upt_split_head)
  with assms(1) recv b q show ?thesis
    by (simp add: inv_queue_def sent_def ndone_def job_def)
next
  case drained
  with assms(1) show ?thesis by (simp add: inv_queue_def ndone_def job_def)
next
  case (check j)
  with assms(1) show ?thesis by (simp add: inv_queue_def ndone_def job_def)
next
  case (reject j r h)
  note u = inv_queue_unresolved [OF assms(1), of j] inv_queue_cur [OF assms(1), of j]
  from reject u have r: "r = (result (job s j))\<lparr>buf := [Some ErrShutdown]\<rparr>"
    by (simp add: chan_send_Next)
  from assms(1) reject(1) u show ?thesis unfolding reject(3) r
    by (auto simp: inv_queue_def ndone_def job_def set_job_def sent_def nth_list_update)
next
  case (drain j t c)
  note u = inv_queue_cur [OF assms(1), of j]
  from assms(1) drain(1) u show ?thesis unfolding drain(3)
    by (auto simp: inv_queue_def ndone_def job_def set_job_def nth_list_update)
next
  case (drain_end j)
  with assms(1) show ?thesis by (simp add: inv_queue_def ndone_def job_def)
next
  case (add j t)
  with assms(1) show ?thesis by (simp add: inv_queue_def ndone_def job_def)
next
  case (wait j)
  with assms(1) show ?thesis by (simp add: inv_queue_def ndone_def job_def)
next
  case (close j)
  note u = inv_queue_cur [OF assms(1), of j]
  from assms(1) close(1) u show ?thesis unfolding close(3)
    by (auto simp: inv_queue_def ndone_def job_def set_job_def nth_list_update)
next
  case (result j r h)
  note u = inv_queue_unresolved [OF assms(1), of j] inv_queue_cur [OF assms(1), of j]
  from result u have r: "r = (result (job s j))\<lparr>buf := [err s]\<rparr>"
    by (simp add: chan_send_Next)
  from assms(1) result(1) u show ?thesis unfolding result(3) r
    by (auto simp: inv_queue_def ndone_def job_def set_job_def sent_def nth_list_update)
next
  case ack
  with assms(1) show ?thesis by (simp add: inv_queue_def ndone_def job_def)
next
  case no_ack
  with assms(1) show ?thesis by (simp add: inv_queue_def ndone_def job_def)
qed


lemma inv_queue_startWorker:
  assumes "inv_queue s" and "startWorker_step i s = Next s'"
  shows "inv_queue s'"
  using assms(2)
  by (cases rule: startWorker_step_cases)
    (use assms(1) in \<open>simp_all add: inv_queue_def ndone_def job_def set_wrk_def\<close>)

lemma inv_queue_dispatch:
  assumes "inv_queue s" and "dispatch i s = Next s'"
  shows "inv_queue s'"
  using assms(2)
  by (cases rule: dispatch_cases)
    (use assms(1) in \<open>simp_all add: inv_queue_def ndone_def job_def set_wrk_def\<close>)

lemma inv_queue_confirm:
  assumes "inv_queue s" and "confirm i s = Next s'"
  shows "inv_queue s'"
  using assms(2)
  by (cases rule: confirm_cases)
    (use assms(1) in \<open>simp_all add: inv_queue_def ndone_def job_def set_wrk_def\<close>)

lemma inv_queue_Stop:
  assumes "inv_queue s" and "Stop_step s = Next s'"
  shows "inv_queue s'"
  using assms(2)
  by (cases rule: Stop_step_cases)
    (use assms(1) in \<open>simp_all add: inv_queue_def ndone_def job_def sent_def\<close>)

lemma inv_queue_NewJob_call:
  assumes "inv_queue s" and "NewJob_call b s = Next s'"
  shows "inv_queue s'"
  using assms(2)
  by (cases rule: NewJob_call_cases)
    (use assms(1) in \<open>simp_all add: inv_queue_def ndone_def job_def\<close>)

lemma inv_queue_ndone_le:
  assumes "inv_queue s"
  shows "ndone s \<le> length (jobs s)"
proof -
  from assms have "length (sent (queue s)) = length (jobs s)" by (simp add: inv_queue_def)
  then show ?thesis by (simp add: ndone_def sent_def)
qed

lemma inv_queue_NewJob_enqueue:
  assumes "inv_queue s" and "NewJob_enqueue b s = Next (j, s')"
  shows "inv_queue s'"
  using assms(2)
proof (cases rule: NewJob_enqueue_cases)
  case buffered
  have "sched s \<noteq> SchedResult (length (jobs s))"
    using inv_queue_cur(1) [OF assms(1), of "length (jobs s)"] by auto
  with inv_queue_ndone_le [OF assms(1)] assms(1) show ?thesis unfolding buffered(5)
    by (auto simp: inv_queue_def ndone_def job_def sent_def nth_append new_Job_def make_chan_def
        buffered(2) less_Suc_eq)
next
  case handed
  from assms(1) handed(5) have t: "length (taken (queue s)) = length (jobs s)"
    by (metis append_Nil2 inv_queue_def length_upt minus_nat.diff_0 sent_def)
  from assms(1) handed(4,5) t show ?thesis unfolding handed(6)
    by (auto simp: inv_queue_def ndone_def job_def sent_def nth_append new_Job_def make_chan_def
        handed(2) less_Suc_eq)
qed

lemma inv_queue_submitting: "inv_queue (s\<lparr>submitting := x\<rparr>) = inv_queue s"
  by (simp add: inv_queue_def ndone_def job_def)

lemma inv_queue_NewJob_send:
  assumes "inv_queue s" and "NewJob_send k s = Next s'"
  shows "inv_queue s'"
  using assms(2)
proof (cases rule: NewJob_send_cases)
  case (1 j s1)
  from assms(1) 1(2) have "inv_queue s1" by (rule inv_queue_NewJob_enqueue)
  with 1(3) show ?thesis by (simp add: inv_queue_submitting)
qed

lemma inv_queue_Go:
  assumes "inv_queue s" and "Go j f s = Next s'"
  shows "inv_queue s'"
  using assms(2)
proof (cases rule: Go_cases)
  case buffered
  from assms(1) buffered(1) show ?thesis unfolding buffered(4)
    by (auto simp: inv_queue_def ndone_def job_def set_job_def nth_list_update)
next
  case handed
  from assms(1) handed(1,3) show ?thesis unfolding handed(5)
    by (auto simp: inv_queue_def ndone_def job_def set_job_def nth_list_update)
qed

lemma inv_queue_Done:
  assumes "inv_queue s" and "Done j f s = Next s'"
  shows "inv_queue s'"
  using assms(2)
proof (cases rule: Done_cases)
  case 1
  from assms(1) 1(1) show ?thesis unfolding 1(3)
    by (auto simp: inv_queue_def ndone_def job_def set_job_def nth_list_update)
qed

lemma inv_queue_callback:
  assumes "inv_queue s" and "callback_step j s = Next s'"
  shows "inv_queue s'"
  using assms(2)
proof (cases rule: callback_step_cases)
  case 1
  from assms(1) 1(1) show ?thesis unfolding 1(4)
    by (auto simp: inv_queue_def ndone_def job_def set_job_def nth_list_update)
qed

lemma inv_queue_Wait:
  assumes "inv_queue s" and "Wait j s = Next (r, s')"
  shows "inv_queue s'"
  using assms(2)
proof (cases rule: Wait_cases)
  case (got c)
  from got(2) obtain vs where b: "buf (result (job s j)) = r # vs"
    and c: "c = (result (job s j))\<lparr>taken := taken (result (job s j)) @ [r], buf := vs\<rparr>"
    by (auto simp: chan_recv_Got)
  from assms(1) got(1) b show ?thesis unfolding got(3) c
    by (auto simp: inv_queue_def ndone_def job_def set_job_def sent_def nth_list_update)
next
  case closed
  with assms(1) show ?thesis by simp
qed

lemma inv_queue_step:
  assumes "inv_queue s" and "step s ev = Next s'"
  shows "inv_queue s'"
proof (cases ev)
  case (WaitCall j)
  with assms(2) obtain r where "Wait j s = Next (r, s')"
    by (auto split: res.splits)
  with assms(1) show ?thesis by (rule inv_queue_Wait)
qed (use assms in \<open>auto intro: inv_queue_processQueue inv_queue_startWorker inv_queue_dispatch
   inv_queue_confirm inv_queue_Stop inv_queue_NewJob_call inv_queue_NewJob_send inv_queue_Go
   inv_queue_Done inv_queue_callback\<close>)

section \<open>Invariant: The shutdown protocol\<close>

lemma inv_stop_New: "New w m = Next s \<Longrightarrow> inv_stop s"
  by (auto simp: New_def inv_stop_def make_chan_def cnt_replicate split: if_splits)

lemma stopped_leaving: "stopped p \<Longrightarrow> leaving p"
  by (cases p) simp_all

lemma cnt_stopped_zero: "cnt leaving ws = 0 \<Longrightarrow> cnt stopped ws = 0"
  by (auto simp: cnt_zero_iff dest: stopped_leaving)

lemma inv_stop_processQueue:
  assumes "inv_stop s" and "processQueue_step s = Next s'"
  shows "inv_stop s'"
  using assms(2)
proof (cases rule: processQueue_step_cases)
  case (recv j q)
  with assms(1) show ?thesis by (auto simp: inv_stop_def chan_recv_Got)
next
  case drained
  with assms(1) show ?thesis by (auto simp: inv_stop_def chan_recv_Drained)
qed (use assms(1) in \<open>auto simp: inv_stop_def set_job_def\<close>)

lemma inv_stop_startWorker:
  assumes "inv_stop s" and "startWorker_step i s = Next s'"
  shows "inv_stop s'"
  using assms(2)
  by (cases rule: startWorker_step_cases)
    (use assms(1) in \<open>auto simp: inv_stop_def set_wrk_def cnt_update split: option.splits\<close>)

lemma inv_stop_dispatch:
  assumes "inv_stop s" and "dispatch i s = Next s'"
  shows "inv_stop s'"
  using assms(2)
  by (cases rule: dispatch_cases)
    (use assms(1) in \<open>auto simp: inv_stop_def set_wrk_def cnt_update\<close>)

lemma inv_stop_confirm:
  assumes "inv_stop s" and "confirm i s = Next s'"
  shows "inv_stop s'"
  using assms(2)
  by (cases rule: confirm_cases)
    (use assms(1) in \<open>auto simp: inv_stop_def set_wrk_def cnt_update\<close>)

lemma inv_stop_Stop:
  assumes "inv_stop s" and "Stop_step s = Next s'"
  shows "inv_stop s'"
  using assms(2)
proof (cases rule: Stop_step_cases)
  case close_workers
  with assms(1) show ?thesis by (auto simp: inv_stop_def dest: cnt_stopped_zero)
next
  case (return k)
  from assms(1) return(1) have k: "k = cnt stopped (wrk s)" and l: "length (wrk s) = nat (count s)"
    by (auto simp: inv_stop_def)
  from k l return(2) cnt_le_length [of stopped "wrk s"]
  have "cnt stopped (wrk s) = int (length (wrk s))" using cnt_nonneg [of stopped "wrk s"] by linarith
  with assms(1) return show ?thesis by (auto simp: inv_stop_def)
qed (use assms(1) in \<open>auto simp: inv_stop_def\<close>)

lemma inv_stop_NewJob_call:
  assumes "inv_stop s" and "NewJob_call b s = Next s'"
  shows "inv_stop s'"
  using assms(2)
  by (cases rule: NewJob_call_cases) (use assms(1) in \<open>auto simp: inv_stop_def\<close>)

lemma inv_stop_NewJob_send:
  assumes "inv_stop s" and "NewJob_send k s = Next s'"
  shows "inv_stop s'"
  using assms(2)
proof (cases rule: NewJob_send_cases)
  case (1 j s1)
  from 1(2) have "inv_stop s1"
    by (cases rule: NewJob_enqueue_cases) (use assms(1) in \<open>auto simp: inv_stop_def\<close>)
  with 1(3) show ?thesis by (auto simp: inv_stop_def)
qed

lemma inv_stop_Go:
  assumes "inv_stop s" and "Go j f s = Next s'"
  shows "inv_stop s'"
  using assms(2)
  by (cases rule: Go_cases) (use assms(1) in \<open>auto simp: inv_stop_def set_job_def\<close>)

lemma inv_stop_Done:
  assumes "inv_stop s" and "Done j f s = Next s'"
  shows "inv_stop s'"
  using assms(2)
  by (cases rule: Done_cases) (use assms(1) in \<open>auto simp: inv_stop_def set_job_def\<close>)

lemma inv_stop_callback:
  assumes "inv_stop s" and "callback_step j s = Next s'"
  shows "inv_stop s'"
  using assms(2)
  by (cases rule: callback_step_cases) (use assms(1) in \<open>auto simp: inv_stop_def set_job_def\<close>)

lemma inv_stop_Wait:
  assumes "inv_stop s" and "Wait j s = Next (r, s')"
  shows "inv_stop s'"
  using assms(2)
  by (cases rule: Wait_cases) (use assms(1) in \<open>auto simp: inv_stop_def set_job_def\<close>)

lemma inv_stop_step:
  assumes "inv_stop s" and "step s ev = Next s'"
  shows "inv_stop s'"
proof (cases ev)
  case (WaitCall j)
  with assms(2) obtain r where "Wait j s = Next (r, s')"
    by (auto split: res.splits)
  with assms(1) show ?thesis by (rule inv_stop_Wait)
qed (use assms in \<open>auto intro: inv_stop_processQueue inv_stop_startWorker inv_stop_dispatch
   inv_stop_confirm inv_stop_Stop inv_stop_NewJob_call inv_stop_NewJob_send inv_stop_Go
   inv_stop_Done inv_stop_callback\<close>)

section \<open>Invariant: Where errors come from\<close>

lemma sent_recv: "buf c = v # vs \<Longrightarrow> sent (c\<lparr>taken := taken c @ [v], buf := vs\<rparr>) = sent c"
  by (simp add: sent_def)

lemma sent_head: "buf c = v # vs \<Longrightarrow> v \<in> set (sent c)"
  by (simp add: sent_def)

lemma sent_buffered: "sent (c\<lparr>buf := buf c @ [v]\<rparr>) = sent c @ [v]"
  by (simp add: sent_def)

lemma sent_handed: "buf c = [] \<Longrightarrow> sent (c\<lparr>taken := taken c @ [v]\<rparr>) = sent c @ [v]"
  by (simp add: sent_def)

lemma sent_closed: "sent (c\<lparr>closed := b\<rparr>) = sent c"
  by (simp add: sent_def)

lemma sent_first: "taken c = [] \<Longrightarrow> sent (c\<lparr>buf := [v]\<rparr>) = [v]"
  by (simp add: sent_def)

lemma inv_tasks_New: "New w m = Next s \<Longrightarrow> inv_tasks s"
  by (auto simp: New_def inv_tasks_def split: if_splits)

lemma held_busy: "held p = Some t \<Longrightarrow> busy p"
  by (cases p) simp_all

lemma inv_sg_idle:
  assumes "inv_sg s" and "\<not> dispatching (sched s)" and "i < length (wrk s)"
  shows "held (wrk s ! i) = None"
proof -
  from assms(1,2) have "cnt busy (wrk s) = 0" by (simp add: inv_sg_def)
  with assms(3) have "\<not> busy (wrk s ! i)" by (simp add: cnt_zero_iff)
  then show ?thesis using held_busy by (cases "held (wrk s ! i)") auto
qed

lemma inv_tasks_processQueue:
  assumes "inv_tasks s" and "inv_sg s" and "inv_queue s" and "processQueue_step s = Next s'"
  shows "inv_tasks s'"
  using assms(4)
proof (cases rule: processQueue_step_cases)
  case (recv j q)
  with assms(1,2) inv_sg_idle [OF assms(2)] show ?thesis
    by (simp add: inv_tasks_def inv_sg_def job_def)
next
  case drained
  with assms(1) show ?thesis by (simp add: inv_tasks_def job_def)
next
  case (check j)
  with assms(1) show ?thesis by (simp add: inv_tasks_def job_def)
next
  case (reject j r h)
  note u = inv_queue_unresolved [OF assms(3), of j] inv_queue_cur [OF assms(3), of j]
  from reject u have r: "r = (result (job s j))\<lparr>buf := [Some ErrShutdown]\<rparr>"
    by (simp add: chan_send_Next)
  from assms(1) reject(1) u show ?thesis unfolding reject(3) r
    by (auto simp: inv_tasks_def job_def set_job_def sent_first nth_list_update)
next
  case (drain j t c)
  note u = inv_queue_cur [OF assms(3), of j]
  from drain(2) obtain vs where b: "buf (tasks (job s j)) = t # vs"
    and c: "c = (tasks (job s j))\<lparr>taken := taken (tasks (job s j)) @ [t], buf := vs\<rparr>"
    by (auto simp: chan_recv_Got)
  from b c have sc: "sent c = sent (tasks (job s j))" "t \<in> set (sent (tasks (job s j)))"
    by (simp_all add: sent_def)
  from assms(1) drain(1) u sc show ?thesis unfolding drain(3)
    by (auto simp: inv_tasks_def job_def set_job_def nth_list_update)
next
  case (drain_end j)
  with assms(1) show ?thesis by (simp add: inv_tasks_def job_def)
next
  case (add j t)
  with assms(1) show ?thesis by (simp add: inv_tasks_def job_def)
next
  case (wait j)
  with assms(1) show ?thesis by (simp add: inv_tasks_def job_def)
next
  case (close j)
  note u = inv_queue_cur [OF assms(3), of j]
  from assms(1) close(1) u show ?thesis unfolding close(3)
    by (auto simp: inv_tasks_def job_def set_job_def nth_list_update)
next
  case (result j r h)
  note u = inv_queue_unresolved [OF assms(3), of j] inv_queue_cur [OF assms(3), of j]
  from result u have r: "r = (result (job s j))\<lparr>buf := [err s]\<rparr>"
    by (simp add: chan_send_Next)
  from assms(1) result(1) u show ?thesis unfolding result(3) r
    by (auto simp: inv_tasks_def job_def set_job_def sent_first nth_list_update; metis)
next
  case ack
  with assms(1) show ?thesis by (simp add: inv_tasks_def job_def)
next
  case no_ack
  with assms(1) show ?thesis by (simp add: inv_tasks_def job_def)
qed

lemma inv_tasks_startWorker:
  assumes "inv_tasks s" and "startWorker_step i s = Next s'"
  shows "inv_tasks s'"
  using assms(2)
proof (cases rule: startWorker_step_cases)
  case select
  with assms(1) show ?thesis
    by (auto simp: inv_tasks_def job_def set_wrk_def nth_list_update)
next
  case (check t)
  with assms(1) show ?thesis
    by (auto simp: inv_tasks_def job_def set_wrk_def nth_list_update)
next
  case skip
  with assms(1) show ?thesis
    by (auto simp: inv_tasks_def job_def set_wrk_def nth_list_update)
next
  case (run t)
  with assms(1) show ?thesis
    by (auto simp: inv_tasks_def job_def set_wrk_def nth_list_update split: option.splits)
next
  case (store e)
  with assms(1) show ?thesis
    by (auto simp: inv_tasks_def job_def set_wrk_def nth_list_update)
next
  case finish
  with assms(1) show ?thesis
    by (auto simp: inv_tasks_def job_def set_wrk_def nth_list_update)
qed

lemma inv_tasks_dispatch:
  assumes "inv_tasks s" and "dispatch i s = Next s'"
  shows "inv_tasks s'"
  using assms(2)
  by (cases rule: dispatch_cases)
    (use assms(1) in \<open>auto simp: inv_tasks_def job_def set_wrk_def nth_list_update\<close>)

lemma inv_tasks_confirm:
  assumes "inv_tasks s" and "confirm i s = Next s'"
  shows "inv_tasks s'"
  using assms(2)
  by (cases rule: confirm_cases)
    (use assms(1) in \<open>auto simp: inv_tasks_def job_def set_wrk_def nth_list_update\<close>)

lemma inv_tasks_Stop:
  assumes "inv_tasks s" and "Stop_step s = Next s'"
  shows "inv_tasks s'"
  using assms(2)
  by (cases rule: Stop_step_cases) (use assms(1) in \<open>simp_all add: inv_tasks_def job_def\<close>)

lemma inv_tasks_NewJob_call:
  assumes "inv_tasks s" and "NewJob_call b s = Next s'"
  shows "inv_tasks s'"
  using assms(2)
  by (cases rule: NewJob_call_cases) (use assms(1) in \<open>simp_all add: inv_tasks_def job_def\<close>)

lemma inv_tasks_submitting: "inv_tasks (s\<lparr>submitting := x\<rparr>) = inv_tasks s"
  by (simp add: inv_tasks_def job_def)

lemma inv_tasks_NewJob_send:
  assumes "inv_tasks s" and "inv_sg s" and "inv_queue s" and "NewJob_send k s = Next s'"
  shows "inv_tasks s'"
  using assms(4)
proof (cases rule: NewJob_send_cases)
  case (1 j s1)
  from 1(2) have "inv_tasks s1"
  proof (cases rule: NewJob_enqueue_cases)
    case buffered
    have "\<And>j'. cur (sched s) = Some j' \<Longrightarrow> j' < length (jobs s)"
      using inv_queue_cur(1) [OF assms(3)] by blast
    with assms(1) show ?thesis unfolding buffered(5)
      by (auto simp: inv_tasks_def job_def nth_append new_Job_def make_chan_def sent_def
          less_Suc_eq)
  next
    case handed
    with assms(1,2) inv_sg_idle [OF assms(2)] show ?thesis
      by (auto simp: inv_tasks_def inv_sg_def job_def nth_append new_Job_def make_chan_def
          sent_def less_Suc_eq)
  qed
  with 1(3) show ?thesis by (simp add: inv_tasks_submitting)
qed

lemma inv_tasks_Go:
  assumes "inv_tasks s" and "Go j f s = Next s'"
  shows "inv_tasks s'"
  using assms(2)
proof (cases rule: Go_cases)
  case buffered
  from assms(1) buffered(1) show ?thesis unfolding buffered(4)
    by (auto simp: inv_tasks_def job_def set_job_def sent_buffered nth_list_update)
next
  case handed
  from assms(1) handed(1,3) sent_handed [OF handed(4), of f] show ?thesis unfolding handed(5)
    by (auto simp: inv_tasks_def job_def set_job_def nth_list_update)
qed

lemma inv_tasks_Done:
  assumes "inv_tasks s" and "Done j f s = Next s'"
  shows "inv_tasks s'"
  using assms(2)
proof (cases rule: Done_cases)
  case 1
  from assms(1) 1(1) show ?thesis unfolding 1(3)
    by (auto simp: inv_tasks_def job_def set_job_def sent_closed nth_list_update)
qed

lemma inv_tasks_callback:
  assumes "inv_tasks s" and "callback_step j s = Next s'"
  shows "inv_tasks s'"
  using assms(2)
proof (cases rule: callback_step_cases)
  case 1
  from assms(1) 1(1) show ?thesis unfolding 1(4)
    by (auto simp: inv_tasks_def job_def set_job_def nth_list_update)
qed

lemma inv_tasks_Wait:
  assumes "inv_tasks s" and "Wait j s = Next (r, s')"
  shows "inv_tasks s'"
  using assms(2)
proof (cases rule: Wait_cases)
  case (got c)
  from got(2) obtain vs where b: "buf (result (job s j)) = r # vs"
    and c: "c = (result (job s j))\<lparr>taken := taken (result (job s j)) @ [r], buf := vs\<rparr>"
    by (auto simp: chan_recv_Got)
  from b c have sc: "sent c = sent (result (job s j))"
    by (simp add: sent_def)
  from assms(1) got(1) sc show ?thesis unfolding got(3)
    by (auto simp: inv_tasks_def job_def set_job_def nth_list_update)
next
  case closed
  with assms(1) show ?thesis by simp
qed

lemma inv_tasks_step:
  assumes "inv_tasks s" and "inv_sg s" and "inv_queue s" and "step s ev = Next s'"
  shows "inv_tasks s'"
proof (cases ev)
  case (WaitCall j)
  with assms(4) obtain r where "Wait j s = Next (r, s')"
    by (auto split: res.splits)
  with assms(1) show ?thesis by (rule inv_tasks_Wait)
qed (use assms in \<open>auto intro: inv_tasks_processQueue inv_tasks_startWorker inv_tasks_dispatch
   inv_tasks_confirm inv_tasks_Stop inv_tasks_NewJob_call inv_tasks_NewJob_send inv_tasks_Go
   inv_tasks_Done inv_tasks_callback\<close>)

section \<open>All invariants together, and what a step can change\<close>

lemma inv_New: "New w m = Next s \<Longrightarrow> inv s"
  by (simp add: inv_def inv_sg_New inv_queue_New inv_stop_New inv_tasks_New)

lemma inv_step: "inv s \<Longrightarrow> step s ev = Next s' \<Longrightarrow> inv s'"
  unfolding inv_def
  using inv_sg_step inv_queue_step inv_stop_step inv_tasks_step by blast

lemma inv_run: "inv s \<Longrightarrow> run s es = Next s' \<Longrightarrow> inv s'"
proof (induction es arbitrary: s)
  case Nil
  then show ?case by simp
next
  case (Cons e es)
  from Cons.prems(2) obtain s1 where s1: "step s e = Next s1" and r: "run s1 es = Next s'"
    by (auto split: res.splits)
  from Cons.prems(1) s1 have "inv s1" by (rule inv_step)
  then show ?case using r by (rule Cons.IH)
qed

lemma inv_run_New: "run_New w m es = Next s \<Longrightarrow> inv s"
  by (auto simp: run_New_def split: res.splits dest: inv_New inv_run)

lemma step_count:
  assumes "step s ev = Next s'"
  shows "count s' = count s"
  using assms by (cases rule: step_cases) (simp_all add: set_job_def set_wrk_def)

lemma run_count: "run s es = Next s' \<Longrightarrow> count s' = count s"
proof (induction es arbitrary: s)
  case Nil
  then show ?case by simp
next
  case (Cons e es)
  then show ?case by (auto split: res.splits dest: step_count)
qed

lemma run_New_count: "run_New w m es = Next s \<Longrightarrow> count s = w"
  by (auto simp: run_New_def New_def split: res.splits if_splits dest: run_count)

lemma step_shouldShutdown:
  assumes "step s ev = Next s'" and "shouldShutdown s"
  shows "shouldShutdown s'"
  using assms by (cases rule: step_cases) (simp_all add: set_job_def set_wrk_def)

lemma step_jobs_length:
  assumes "step s ev = Next s'"
  shows "length (jobs s) \<le> length (jobs s')"
  using assms by (cases rule: step_cases) (simp_all add: set_job_def set_wrk_def)

lemma nth_list_update_if: "xs[i := x] ! j = (if i = j \<and> i < length xs then x else xs ! j)"
  by (cases "i < length xs") (simp_all add: nth_list_update list_update_beyond)

lemma step_completed:
  assumes "step s ev = Next s'" and "j < length (jobs s)" and "completed (job s' j)"
  shows "completed (job s j) \<or> (ev = Sched \<and> sched s = SchedClose j)"
  using assms(1)
  by (cases rule: step_cases)
    (use assms(2,3) in \<open>auto simp: job_def set_job_def set_wrk_def nth_list_update_if nth_append
       split: if_splits\<close>)

lemma inv_parts: "inv s \<Longrightarrow> inv_sg s" "inv s \<Longrightarrow> inv_queue s" "inv s \<Longrightarrow> inv_stop s"
  "inv s \<Longrightarrow> inv_tasks s"
  by (simp_all add: inv_def)

lemma step_result:
  assumes "inv s" and "step s ev = Next s'" and "j < length (jobs s)"
    and "sent (result (job s' j)) \<noteq> sent (result (job s j))"
  shows "sent (result (job s j)) = [] \<and> ev = Sched \<and>
         ((sched s = SchedResult j \<and> completed (job s j) \<and>
           sent (result (job s' j)) = [err s]) \<or>
          (sched s = SchedReject j \<and> shouldShutdown s \<and> \<not> completed (job s j) \<and>
           sent (result (job s' j)) = [Some ErrShutdown]))"
  using assms(2)
proof (cases rule: step_cases)
  case (reject j')
  then have c: "cur (sched s) = Some j'" by simp
  note u = inv_queue_unresolved [OF inv_parts(2) [OF assms(1)] c]
    inv_queue_cur [OF inv_parts(2) [OF assms(1)] c]
  from inv_parts(3) [OF assms(1)] reject(2) have "shouldShutdown s"
    by (auto simp: inv_stop_def)
  with assms(3,4) u reject show ?thesis
    by (auto simp: job_def set_job_def nth_list_update_if sent_def split: if_splits)
next
  case (result j')
  then have c: "cur (sched s) = Some j'" by simp
  note u = inv_queue_unresolved [OF inv_parts(2) [OF assms(1)] c]
    inv_queue_cur [OF inv_parts(2) [OF assms(1)] c]
  from assms(3,4) u result show ?thesis
    by (auto simp: job_def set_job_def nth_list_update_if sent_def split: if_splits)
qed (use assms(3,4) in \<open>auto simp: job_def set_job_def set_wrk_def nth_list_update_if sent_def
   nth_append split: if_splits\<close>)

lemma step_err_Some:
  assumes "inv s" and "step s ev = Next s'" and "err s = Some e"
  shows "err s' = Some e \<or>
         (ev = Sched \<and> (\<exists>j. sched s = SchedResult j \<and> err s' = None \<and> sched s' = SchedRecv \<and>
            sent (result (job s' j)) = [Some e]))"
  using assms(2)
proof (cases rule: step_cases)
  case (result j')
  then have c: "cur (sched s) = Some j'" by simp
  note u = inv_queue_unresolved [OF inv_parts(2) [OF assms(1)] c]
    inv_queue_cur [OF inv_parts(2) [OF assms(1)] c]
  from assms(3) u result show ?thesis
    by (auto simp: job_def set_job_def nth_list_update_if sent_def)
qed (use assms(3) in \<open>auto simp: set_job_def set_wrk_def\<close>)

lemma step_err_None:
  assumes "step s ev = Next s'" and "err s = None"
  shows "err s' = None \<or>
         (\<exists>i e. ev = Work i \<and> i < length (wrk s) \<and> wrk s ! i = WRecord e \<and> err s' = Some e)"
  using assms(1)
  by (cases rule: step_cases) (use assms(2) in \<open>auto simp: set_job_def set_wrk_def\<close>)

lemma step_cur:
  assumes "step s ev = Next s'" and "cur (sched s) = Some j"
  shows "cur (sched s') = Some j \<or>
         (ev = Sched \<and> (sched s = SchedReject j \<or> (sched s = SchedResult j \<and> err s' = None)) \<and>
          sched s' = SchedRecv)"
  using assms(1)
  by (cases rule: step_cases) (use assms(2) in \<open>auto simp: set_job_def set_wrk_def\<close>)

lemma step_result_resets:
  assumes "step s Sched = Next s'" and "sched s = SchedResult j"
  shows "err s' = None" and "sched s' = SchedRecv"
  using assms by (auto simp: processQueue_step_def set_job_def split: res.splits)

lemma step_ndone:
  assumes "inv_queue s" and "step s ev = Next s'"
  shows "ndone s \<le> ndone s'"
  using assms(2)
  by (cases rule: step_cases)
    (use assms(1) in \<open>auto simp: ndone_def set_job_def set_wrk_def inv_queue_def\<close>)

lemma step_reject:
  assumes "inv_queue s" and "step s ev = Next s'" and "sched s = SchedReject j"
  shows "sched s' = SchedReject j \<or> (sched s' = SchedRecv \<and> j < ndone s')"
  using assms(2)
  by (cases rule: step_cases)
    (use assms(1,3) in \<open>auto simp: ndone_def set_job_def set_wrk_def inv_queue_def\<close>)

lemma run_append:
  "run s (es @ es') = (case run s es of Next s1 \<Rightarrow> run s1 es' | Panic \<Rightarrow> Panic | Blocked \<Rightarrow> Blocked)"
  by (induction es arbitrary: s) (auto split: res.splits)

lemma run_New_append:
  "run_New w m (es @ es') =
     (case run_New w m es of Next s \<Rightarrow> run s es' | Panic \<Rightarrow> Panic | Blocked \<Rightarrow> Blocked)"
  by (simp add: run_New_def run_append split: res.splits)

lemma run_New_snoc:
  assumes "run_New w m es = Next s" and "step s e = Next s'"
  shows "run_New w m (es @ [e]) = Next s'"
  using assms by (simp add: run_New_append)

lemma run_New_then:
  assumes "run_New w m es = Next s" and "run s es' = Next s'"
  shows "run_New w m (es @ es') = Next s'"
  using assms by (simp add: run_New_append)

lemma run_jobs_length: "run s es = Next s' \<Longrightarrow> length (jobs s) \<le> length (jobs s')"
proof (induction es arbitrary: s)
  case Nil
  then show ?case by simp
next
  case (Cons e es)
  from Cons.prems obtain s1 where "step s e = Next s1" and "run s1 es = Next s'"
    by (auto split: res.splits)
  with Cons.IH [of s1] step_jobs_length [of s e s1] show ?case by simp
qed

section \<open>Lemmas for the claims\<close>

lemma stopped_iff: "stopped p \<longleftrightarrow> p = WStopped"
  by (cases p) simp_all

lemma inv_all_resolved:
  assumes "inv_queue s" and "cur (sched s) = None" and "buf (queue s) = []"
    and "j < length (jobs s)"
  shows "length (sent (result (job s j))) = 1"
proof -
  from assms(1,3) have "length (taken (queue s)) = length (jobs s)"
    by (metis append_Nil2 inv_queue_def length_upt minus_nat.diff_0 sent_def)
  with assms(2,4) have "j < ndone s" by (simp add: ndone_def)
  with assms(1,4) show ?thesis by (simp add: inv_queue_def)
qed

lemma first_error_step:
  assumes "inv s" and "step s ev = Next s'" and "j < length (jobs s)"
    and "(cur (sched s) = Some j \<and> err s = Some e \<and> sent (result (job s j)) = []) \<or>
         sent (result (job s j)) = [Some e]"
  shows "(cur (sched s') = Some j \<and> err s' = Some e \<and> sent (result (job s' j)) = []) \<or>
         sent (result (job s' j)) = [Some e]"
proof (cases "sent (result (job s j)) = [Some e]")
  case True
  with step_result [OF assms(1-3)] show ?thesis by force
next
  case False
  with assms(4) have c: "cur (sched s) = Some j" and e: "err s = Some e"
    and r: "sent (result (job s j)) = []"
    by auto
  from inv_parts(1) [OF assms(1)] e have nb: "\<not> between_jobs (sched s)"
    by (auto simp: inv_sg_def)
  show ?thesis
  proof (cases "err s' = Some e")
    case True
    with step_cur [OF assms(2) c] step_err_Some [OF assms(1,2) e] nb
    have c': "cur (sched s') = Some j" by auto
    have "sent (result (job s' j)) = sent (result (job s j))"
    proof (rule ccontr)
      assume "sent (result (job s' j)) \<noteq> sent (result (job s j))"
      from step_result [OF assms(1-3) this] nb
      have "ev = Sched" and "sched s = SchedResult j" by auto
      with assms(2) have "err s' = None" using step_result_resets(1) by blast
      with True show False by simp
    qed
    with c' True r show ?thesis by simp
  next
    case False
    with step_err_Some [OF assms(1,2) e] c show ?thesis by auto
  qed
qed

lemma first_error_run:
  assumes "inv s" and "run s es = Next s'" and "j < length (jobs s)"
    and "(cur (sched s) = Some j \<and> err s = Some e \<and> sent (result (job s j)) = []) \<or>
         sent (result (job s j)) = [Some e]"
  shows "(cur (sched s') = Some j \<and> err s' = Some e \<and> sent (result (job s' j)) = []) \<or>
         sent (result (job s' j)) = [Some e]"
  using assms
proof (induction es arbitrary: s)
  case Nil
  then show ?case by simp
next
  case (Cons ev es)
  from Cons.prems(2) obtain s1 where s1: "step s ev = Next s1" and r: "run s1 es = Next s'"
    by (auto split: res.splits)
  from Cons.prems(1) s1 have i1: "inv s1" by (rule inv_step)
  from Cons.prems(3) step_jobs_length [OF s1] have j1: "j < length (jobs s1)" by simp
  from first_error_step [OF Cons.prems(1) s1 Cons.prems(3,4)]
  show ?case by (rule Cons.IH [OF i1 r j1])
qed

lemma Wait_returns_outcome:
  assumes "inv_queue s" and "Wait j s = Next (r, s')"
  shows "sent (result (job s j)) = [r]"
  using assms(2)
proof (cases rule: Wait_cases)
  case (got c)
  from got(2) obtain vs where b: "buf (result (job s j)) = r # vs" by (auto simp: chan_recv_Got)
  from assms(1) got(1) have "length (sent (result (job s j))) \<le> 1"
    by (cases "j < ndone s") (auto simp: inv_queue_def)
  with b show ?thesis by (simp add: sent_def)
next
  case closed
  with assms(1) show ?thesis by (simp add: inv_queue_def chan_recv_Drained)
qed

lemma inv_bound_New: "New w m = Next s \<Longrightarrow> inv_bound s"
  by (auto simp: New_def inv_bound_def split: if_splits)

lemma inv_bound_step:
  assumes "inv s" and "inv_bound s" and "step s ev = Next s'"
  shows "inv_bound s'"
proof -
  have v: "\<And>j'. cur (sched s) = Some j' \<Longrightarrow> j' < length (jobs s)"
    using inv_queue_cur(1) [OF inv_parts(2) [OF assms(1)]] by blast
  from assms(3) show ?thesis
  proof (cases rule: step_cases)
  case (recv j vs)
  with inv_parts(1) [OF assms(1)] show ?thesis
    by (simp add: inv_bound_def inv_sg_def)
next
  case (handover k sub)
  with inv_parts(1) [OF assms(1)] show ?thesis
    by (simp add: inv_bound_def inv_sg_def)
next
  case (enqueue k sub)
  with assms(2) v show ?thesis
    by (auto simp: inv_bound_def job_def nth_append)
qed (use assms(2) v in \<open>auto simp: inv_bound_def job_def set_job_def set_wrk_def
   nth_list_update_if split: if_splits\<close>)
qed

lemma inv_bound_run: "inv s \<Longrightarrow> inv_bound s \<Longrightarrow> run s es = Next s' \<Longrightarrow> inv_bound s'"
proof (induction es arbitrary: s)
  case Nil
  then show ?case by simp
next
  case (Cons e es)
  from Cons.prems(3) obtain s1 where s1: "step s e = Next s1" and r: "run s1 es = Next s'"
    by (auto split: res.splits)
  from Cons.prems(1) s1 have "inv s1" by (rule inv_step)
  moreover from Cons.prems(1,2) s1 have "inv_bound s1" by (rule inv_bound_step)
  ultimately show ?case using r by (rule Cons.IH)
qed

lemma inv_bound_run_New: "run_New w m es = Next s \<Longrightarrow> inv_bound s"
  by (auto simp: run_New_def split: res.splits dest: inv_New inv_bound_New inv_bound_run)

lemma rejected_step:
  assumes "inv s" and "step s ev = Next s'" and "j < length (jobs s)"
    and "\<not> completed (job s j)" and "sched s = SchedReject j \<or> j < ndone s"
  shows "\<not> completed (job s' j) \<and> (sched s' = SchedReject j \<or> j < ndone s')"
proof -
  note q = inv_parts(2) [OF assms(1)]
  have "sched s \<noteq> SchedClose j"
  proof
    assume k: "sched s = SchedClose j"
    then have "cur (sched s) = Some j" by simp
    from inv_queue_cur(2) [OF q this] k assms(5) show False by simp
  qed
  with step_completed [OF assms(2,3)] assms(4) have "\<not> completed (job s' j)" by blast
  moreover have "sched s' = SchedReject j \<or> j < ndone s'"
    using assms(5) step_reject [OF q assms(2)] step_ndone [OF q assms(2)] by auto
  ultimately show ?thesis by simp
qed

lemma rejected_run:
  assumes "inv s" and "run s es = Next s'" and "j < length (jobs s)"
    and "\<not> completed (job s j)" and "sched s = SchedReject j \<or> j < ndone s"
  shows "\<not> completed (job s' j)"
  using assms
proof (induction es arbitrary: s)
  case Nil
  then show ?case by simp
next
  case (Cons ev es)
  from Cons.prems(2) obtain s1 where s1: "step s ev = Next s1" and r: "run s1 es = Next s'"
    by (auto split: res.splits)
  from Cons.prems(1) s1 have i1: "inv s1" by (rule inv_step)
  from Cons.prems(3) step_jobs_length [OF s1] have j1: "j < length (jobs s1)" by simp
  from rejected_step [OF Cons.prems(1) s1 Cons.prems(3,4,5)]
  show ?case using Cons.IH [OF i1 r j1] by blast
qed

lemma empty_job_drain:
  assumes "inv s" and "inv_bound s" and "sched s = SchedDrain j"
    and "sent (tasks (job s j)) = []" and "closed (tasks (job s j))"
  shows "run s [Sched, Sched, Sched, Sched] =
     Next ((set_job j ((job s j)\<lparr>completed := True\<rparr>\<lparr>result := (result (job s j))\<lparr>buf := [None]\<rparr>\<rparr>) s)
              \<lparr>err := None, sched := SchedRecv\<rparr>)"
proof -
  from assms(3) have c: "cur (sched s) = Some j" by simp
  note p = inv_parts [OF assms(1)]
  note u = inv_queue_unresolved [OF p(2) c] inv_queue_cur [OF p(2) c]
  from assms(4) have tb: "buf (tasks (job s j)) = []" and tt: "taken (tasks (job s j)) = []"
    by (simp_all add: sent_def)
  from p(1) assms(3) have "sg s = cnt busy (wrk s)" by (simp add: inv_sg_def)
  moreover from assms(2) c assms(3) tt have "sg s \<le> 0" by (simp add: inv_bound_def)
  ultimately have sg: "sg s = 0" using cnt_nonneg [of busy "wrk s"] by simp
  have e: "err s = None"
  proof (cases "err s")
    case (Some x)
    with p(4) c assms(4) show ?thesis by (auto simp: inv_tasks_def)
  qed simp
  from assms(3,5) tb sg e u show ?thesis
    by (simp add: processQueue_step_def chan_recv_def chan_send_def job_def set_job_def)
qed

lemma empty_job_outcome:
  assumes "j < length (jobs s)" and "taken (result (job s j)) = []"
    and "s' = (set_job j ((job s j)\<lparr>completed := True\<rparr>\<lparr>result := (result (job s j))\<lparr>buf := [None]\<rparr>\<rparr>) s)
              \<lparr>err := None, sched := SchedRecv\<rparr>"
  shows "sched s' = SchedRecv \<and> completed (job s' j) \<and> sent (result (job s' j)) = [None] \<and>
         (\<exists>s''. Wait j s' = Next (None, s''))"
  using assms by (simp add: job_def set_job_def sent_def Wait_def chan_recv_def)

text \<open>
  A worker that has ended at line 106 stays ended, and \<open>Stop\<close> cannot return any
  more: it waits for a confirmation that this worker never sends.
\<close>

lemma step_exited:
  assumes "step s ev = Next s'" and "i < length (wrk s)" and "wrk s ! i = WExited"
  shows "i < length (wrk s') \<and> wrk s' ! i = WExited"
  using assms(1)
  by (cases rule: step_cases)
    (use assms(2,3) in \<open>auto simp: set_job_def set_wrk_def nth_list_update_if\<close>)

lemma run_exited:
  assumes "run s es = Next s'" and "i < length (wrk s)" and "wrk s ! i = WExited"
  shows "i < length (wrk s') \<and> wrk s' ! i = WExited"
  using assms
proof (induction es arbitrary: s)
  case Nil
  then show ?case by simp
next
  case (Cons e es)
  from Cons.prems(1) obtain s1 where s1: "step s e = Next s1" and r: "run s1 es = Next s'"
    by (auto split: res.splits)
  from step_exited [OF s1 Cons.prems(2,3)] Cons.IH [OF r] show ?case by simp
qed

lemma Stop_never_returns_after_exit:
  assumes "run_New workers maxJobs es = Next s" and "i < length (wrk s)"
    and "wrk s ! i = WExited" and "run s es' = Next s'"
  shows "stop s' \<noteq> StopReturned"
proof
  assume r: "stop s' = StopReturned"
  from assms(1) have "inv s" by (rule inv_run_New)
  from this assms(4) have "inv s'" by (rule inv_run)
  then have "inv_stop s'" by (simp add: inv_def)
  with r have "cnt stopped (wrk s') = int (length (wrk s'))" by (simp add: inv_stop_def)
  then have a: "\<forall>x \<in> set (wrk s'). stopped x" by (simp add: cnt_all_iff)
  from run_exited [OF assms(4,2,3)] have l: "i < length (wrk s')" and x: "wrk s' ! i = WExited"
    by simp_all
  from a l have "stopped (wrk s' ! i)" by simp
  with x show False by simp
qed

text \<open>
  The send of line 178 panics whenever the queue is closed, and the queue is closed
  as soon as \<open>Stop\<close> is past line 127.
\<close>

lemma NewJob_send_closed:
  assumes "k < length (submitting s)" and "closed (queue s)"
  shows "NewJob_send k s = Panic"
  using assms by (simp add: NewJob_send_def NewJob_enqueue_def chan_send_def Let_def)

lemma NewJob_send_after_close:
  assumes "run_New workers maxJobs es = Next s" and "2 \<le> stage (stop s)"
    and "k < length (submitting s)"
  shows "step s (NewJobSend k) = Panic"
proof -
  from assms(1) have "inv_stop s" using inv_run_New inv_parts(3) by blast
  with assms(2) have "closed (queue s)" by (simp add: inv_stop_def)
  with assms(3) show ?thesis by (simp add: NewJob_send_closed)
qed
section \<open>Runs that resolve jobs and shut the pool down\<close>

lemma run_then:
  assumes "run s es = Next s1" and "run s1 es' = Next s2"
  shows "run s (es @ es') = Next s2"
  using assms by (simp add: run_append)

lemma cnt_less:
  assumes "i < length xs" and "\<not> P (xs ! i)"
  shows "cnt P xs < int (length xs)"
proof -
  from assms have "\<not> (\<forall>x \<in> set xs. P x)" using nth_mem by blast
  then have "cnt P xs \<noteq> int (length xs)" by (simp add: cnt_all_iff)
  with cnt_le_length [of P xs] show ?thesis by simp
qed

text \<open>A job that waits in the queue is untouched.\<close>

lemma inv_queued:
  assumes "inv_queue s" and "j \<in> set (buf (queue s))"
  shows "j < length (jobs s)" and "ndone s \<le> j"
    and "sent (result (job s j)) = []" and "cap (result (job s j)) = 1"
    and "\<not> closed (result (job s j))" and "\<not> completed (job s j) \<or> sched s = SchedResult j"
    and "j \<notin> set (taken (queue s))"
proof -
  from assms(1) have u: "taken (queue s) @ buf (queue s) = [0..<length (jobs s)]"
    by (simp add: inv_queue_def sent_def)
  from assms(2) have "j \<in> set (taken (queue s) @ buf (queue s))" by simp
  with u show l: "j < length (jobs s)" by simp
  have d: "distinct (taken (queue s) @ buf (queue s))" unfolding u by simp
  with assms(2) show nt: "j \<notin> set (taken (queue s))" by auto
  have "length (taken (queue s)) \<le> j"
  proof (rule ccontr)
    assume "\<not> length (taken (queue s)) \<le> j"
    then have k: "j < length (taken (queue s))" by simp
    then have "(taken (queue s) @ buf (queue s)) ! j = taken (queue s) ! j"
      by (simp add: nth_append)
    moreover from l have "[0..<length (jobs s)] ! j = j" by simp
    ultimately have "taken (queue s) ! j = j" using u by simp
    with k nt show False using nth_mem by metis
  qed
  then show n: "ndone s \<le> j" by (simp add: ndone_def)
  from assms(1) l n show "sent (result (job s j)) = []" "cap (result (job s j)) = 1"
    "\<not> closed (result (job s j))" "\<not> completed (job s j) \<or> sched s = SchedResult j"
    by (auto simp: inv_queue_def)
qed

subsection \<open>Rejecting the queued jobs\<close>

lemma reject_run:
  assumes "inv s" and "sched s = SchedCheck j" and "shouldShutdown s"
  shows "run s [Sched, Sched] =
     Next (s\<lparr>jobs := (jobs s)[j := rejected_Job (job s j)], sched := SchedRecv\<rparr>)"
proof -
  from assms(2) have c: "cur (sched s) = Some j" by simp
  note p = inv_parts [OF assms(1)]
  note u = inv_queue_unresolved [OF p(2) c] inv_queue_cur [OF p(2) c]
  from assms(2,3) u show ?thesis
    by (simp add: processQueue_step_def chan_send_def job_def set_job_def rejected_Job_def)
qed

lemma reject_one:
  assumes "inv s" and "sched s = SchedRecv" and "shouldShutdown s"
    and "buf (queue s) = j # js"
  shows "run s [Sched, Sched, Sched] =
     Next (s\<lparr>queue := (queue s)\<lparr>taken := taken (queue s) @ [j], buf := js\<rparr>,
              jobs := (jobs s)[j := rejected_Job (job s j)]\<rparr>)"
proof -
  from assms(4) have "j \<in> set (buf (queue s))" by simp
  note q = inv_queued [OF inv_parts(2) [OF assms(1)] this]
  from q(3) have "buf (result (job s j)) = []" by (simp add: sent_def)
  with assms(2,3,4) q(1,4,5) show ?thesis
    by (simp add: processQueue_step_def chan_recv_def chan_send_def job_def set_job_def
        rejected_Job_def)
qed

lemma reject_all:
  assumes "inv s" and "sched s = SchedRecv" and "shouldShutdown s"
    and "buf (queue s) = js"
  shows "\<exists>js'. run s (reject_events (length js)) =
       Next (s\<lparr>queue := (queue s)\<lparr>taken := taken (queue s) @ js, buf := []\<rparr>, jobs := js'\<rparr>) \<and>
     length js' = length (jobs s) \<and>
     (\<forall>j < length (jobs s).
        js' ! j = (if j \<in> set js then rejected_Job (job s j) else job s j))"
  using assms
proof (induction js arbitrary: s)
  case Nil
  have "s\<lparr>queue := (queue s)\<lparr>taken := taken (queue s) @ [], buf := []\<rparr>, jobs := jobs s\<rparr> = s"
    using Nil.prems(4) [symmetric] by simp
  then show ?case by (auto simp: reject_events_def job_def intro!: exI [of _ "jobs s"])
next
  case (Cons j js)
  let ?s1 = "s\<lparr>queue := (queue s)\<lparr>taken := taken (queue s) @ [j], buf := js\<rparr>,
              jobs := (jobs s)[j := rejected_Job (job s j)]\<rparr>"
  note r1 = reject_one [OF Cons.prems]
  from Cons.prems(4) have m: "j \<in> set (buf (queue s))" by simp
  note q = inv_queued [OF inv_parts(2) [OF Cons.prems(1)] m]
  from inv_parts(2) [OF Cons.prems(1)] Cons.prems(4) have "distinct (j # js)"
    by (metis distinct_append distinct_upt inv_queue_def sent_def)
  then have nj: "j \<notin> set js" by simp
  from Cons.prems(1) r1 have i1: "inv ?s1" by (rule inv_run)
  have "sched ?s1 = SchedRecv" "shouldShutdown ?s1" "buf (queue ?s1) = js"
    using Cons.prems(2,3) by simp_all
  from Cons.IH [OF i1 this] obtain js' where
    r2: "run ?s1 (reject_events (length js)) =
       Next (?s1\<lparr>queue := (queue ?s1)\<lparr>taken := taken (queue ?s1) @ js, buf := []\<rparr>, jobs := js'\<rparr>)"
    and l: "length js' = length (jobs ?s1)"
    and p: "\<forall>k < length (jobs ?s1).
        js' ! k = (if k \<in> set js then rejected_Job (job ?s1 k) else job ?s1 k)"
    by blast
  have e: "reject_events (length (j # js)) = [Sched, Sched, Sched] @ reject_events (length js)"
    by (simp add: reject_events_def)
  have "run s (reject_events (length (j # js))) =
       Next (s\<lparr>queue := (queue s)\<lparr>taken := taken (queue s) @ j # js, buf := []\<rparr>, jobs := js'\<rparr>)"
    unfolding e run_append r1 using r2 by simp
  moreover from l have "length js' = length (jobs s)" by simp
  moreover have "\<forall>k < length (jobs s).
        js' ! k = (if k \<in> set (j # js) then rejected_Job (job s k) else job s k)"
    using p nj q(1) by (auto simp: job_def nth_list_update_if)
  ultimately show ?case by blast
qed

subsection \<open>Stopping the workers\<close>

lemma confirm_one:
  assumes "stopWorkers s" and "stop s = StopLoop k" and "k < count s"
    and "i < length (wrk s)" and "wrk s ! i = WSelect"
  shows "run s [Work i, Confirm i] =
     Next (s\<lparr>wrk := (wrk s)[i := WStopped], stop := StopLoop (k + 1)\<rparr>)"
  using assms by (simp add: startWorker_step_def confirm_def set_wrk_def)

lemma confirm_all:
  assumes "stopWorkers s" and "stop s = StopLoop (int k)" and "n = nat (count s)"
    and "length (wrk s) = n" and "k \<le> n"
    and "\<forall>i. k \<le> i \<and> i < n \<longrightarrow> wrk s ! i = WSelect"
  shows "\<exists>ws. run s (confirm_events k n) = Next (s\<lparr>wrk := ws, stop := StopLoop (int n)\<rparr>) \<and>
     length ws = n \<and> (\<forall>i < n. ws ! i = (if k \<le> i then WStopped else wrk s ! i))"
  using assms
proof (induction "n - k" arbitrary: k s)
  case 0
  then have "k = n" by simp
  moreover from "0.prems"(2) \<open>k = n\<close> have st: "stop s = StopLoop (int n)" by simp
  have "s\<lparr>wrk := wrk s, stop := stop s\<rparr> = s" by simp
  then have "s\<lparr>wrk := wrk s, stop := StopLoop (int n)\<rparr> = s" unfolding st .
  ultimately show ?case using "0.prems"(4)
    by (auto simp: confirm_events_def intro!: exI [of _ "wrk s"])
next
  case (Suc d)
  then have kn: "k < n" by simp
  let ?s1 = "s\<lparr>wrk := (wrk s)[k := WStopped], stop := StopLoop (int k + 1)\<rparr>"
  from kn Suc.prems have r1: "run s [Work k, Confirm k] = Next ?s1"
    by (intro confirm_one) simp_all
  have h: "stopWorkers ?s1" "stop ?s1 = StopLoop (int (Suc k))" "n = nat (count ?s1)"
    "length (wrk ?s1) = n" "Suc k \<le> n"
    "\<forall>i. Suc k \<le> i \<and> i < n \<longrightarrow> wrk ?s1 ! i = WSelect"
    using Suc.prems kn by (simp_all add: nth_list_update_if)
  from Suc.hyps(2) have "d = n - Suc k" by simp
  from Suc.hyps(1) [OF this h] obtain ws where
    r2: "run ?s1 (confirm_events (Suc k) n) = Next (?s1\<lparr>wrk := ws, stop := StopLoop (int n)\<rparr>)"
    and l: "length ws = n"
    and p: "\<forall>i < n. ws ! i = (if Suc k \<le> i then WStopped else wrk ?s1 ! i)"
    by blast
  from kn have e: "confirm_events k n = [Work k, Confirm k] @ confirm_events (Suc k) n"
    by (simp add: confirm_events_def upt_conv_Cons)
  have "run s (confirm_events k n) = Next (s\<lparr>wrk := ws, stop := StopLoop (int n)\<rparr>)"
    unfolding e run_append r1 using r2 by simp
  moreover have "\<forall>i < n. ws ! i = (if k \<le> i then WStopped else wrk s ! i)"
    using p kn Suc.prems(4) by (auto simp: nth_list_update_if le_Suc_eq)
  ultimately show ?case using l by blast
qed

text \<open>
  \<open>Stop\<close> on a pool whose scheduler waits for a job and whose workers all wait at
  their \<open>select\<close>: the schedule \<open>shutdown_events\<close> can run, every queued job gets
  \<open>ErrShutdown\<close> and nothing else about it changes, every worker confirms, and
  \<open>Stop\<close> returns.
\<close>

lemma shutdown_run:
  assumes "inv s" and "stop s = StopNotCalled" and "sched s = SchedRecv"
    and "\<forall>i < length (wrk s). wrk s ! i = WSelect"
  shows "\<exists>s'. run s (shutdown_events (length (buf (queue s))) (length (wrk s))) = Next s' \<and>
     stop s' = StopReturned \<and> length (wrk s') = length (wrk s) \<and>
     (\<forall>i < length (wrk s'). wrk s' ! i = WStopped) \<and>
     (\<forall>j \<in> set (buf (queue s)). job s' j = rejected_Job (job s j)) \<and>
     buf (queue s') = [] \<and> sched s' = SchedDone \<and> sg s' = sg s \<and> err s' = err s"
proof -
  note st = inv_parts(3) [OF assms(1)]
  from st assms(2) have f: "\<not> closed (queue s)" "\<not> triggeredShutdown s" "\<not> ackShutdown s"
    "\<not> stopWorkers s" "length (wrk s) = nat (count s)"
    using assms(3) by (auto simp: inv_stop_def)
  let ?K = "length (buf (queue s))" and ?n = "length (wrk s)"
  let ?s2 = "s\<lparr>shouldShutdown := True, queue := (queue s)\<lparr>closed := True\<rparr>, stop := StopWaitAck\<rparr>"
  from assms(2,3) f(1) have r1: "run s [StopCall, StopCall] = Next ?s2"
    by (simp add: Stop_step_def chan_close_def locked_def)
  from assms(1) r1 have i2: "inv ?s2" by (rule inv_run)
  have "sched ?s2 = SchedRecv" "shouldShutdown ?s2" "buf (queue ?s2) = buf (queue s)"
    using assms(3) by simp_all
  from reject_all [OF i2 this] obtain js where
    r2: "run ?s2 (reject_events ?K) =
       Next (?s2\<lparr>queue := (queue ?s2)\<lparr>taken := taken (queue ?s2) @ buf (queue s), buf := []\<rparr>,
                  jobs := js\<rparr>)"
    and l: "length js = length (jobs ?s2)"
    and p: "\<forall>j < length (jobs ?s2).
        js ! j = (if j \<in> set (buf (queue s)) then rejected_Job (job ?s2 j) else job ?s2 j)"
    by blast
  let ?s3 = "?s2\<lparr>queue := (queue ?s2)\<lparr>taken := taken (queue ?s2) @ buf (queue s), buf := []\<rparr>,
                  jobs := js\<rparr>"
  let ?s6 = "?s3\<lparr>triggeredShutdown := True, ackShutdown := True, sched := SchedDone,
                 stopWorkers := True, stop := StopLoop 0\<rparr>"
  from assms(3) f have r3: "run ?s3 [Sched, Sched, StopCall, StopCall] = Next ?s6"
    by (simp add: processQueue_step_def chan_recv_def ack_block_def Stop_step_def)
  have h: "stopWorkers ?s6" "stop ?s6 = StopLoop (int 0)" "?n = nat (count ?s6)"
    "length (wrk ?s6) = ?n" "0 \<le> ?n" "\<forall>i. 0 \<le> i \<and> i < ?n \<longrightarrow> wrk ?s6 ! i = WSelect"
    using f(5) assms(4) by simp_all
  from confirm_all [OF h] obtain ws where
    r4: "run ?s6 (confirm_events 0 ?n) = Next (?s6\<lparr>wrk := ws, stop := StopLoop (int ?n)\<rparr>)"
    and lw: "length ws = ?n" and pw: "\<forall>i < ?n. ws ! i = WStopped"
    by auto
  let ?s7 = "?s6\<lparr>wrk := ws, stop := StopLoop (int ?n)\<rparr>"
  from f(5) have r5: "run ?s7 [StopCall] = Next (?s7\<lparr>stop := StopReturned\<rparr>)"
    by (simp add: Stop_step_def)
  have "run s (shutdown_events ?K ?n) = Next (?s7\<lparr>stop := StopReturned\<rparr>)"
    unfolding shutdown_events_def run_append r1 res.case r2 r3 r4 r5 ..
  moreover have "\<forall>j \<in> set (buf (queue s)). job (?s7\<lparr>stop := StopReturned\<rparr>) j = rejected_Job (job s j)"
  proof
    fix j
    assume m: "j \<in> set (buf (queue s))"
    from inv_queued(1) [OF inv_parts(2) [OF assms(1)] m] p m
    show "job (?s7\<lparr>stop := StopReturned\<rparr>) j = rejected_Job (job s j)"
      by (simp add: job_def)
  qed
  ultimately show ?thesis using lw pw by auto
qed

subsection \<open>Executing a job\<close>

lemma serve_one:
  assumes "sched s = SchedDrain j" and "j < length (jobs s)"
    and "buf (tasks (job s j)) = t # ts" and "i < length (wrk s)" and "wrk s ! i = WSelect"
    and "err s = None" and "0 \<le> sg s"
  shows "run s ([Sched, Sched, Dispatch i, Work i, Work i] @
                (case t of Some e \<Rightarrow> [Work i] | None \<Rightarrow> []) @ [Work i]) =
     Next (s\<lparr>jobs := (jobs s)[j := (job s j)\<lparr>tasks :=
                (tasks (job s j))\<lparr>taken := taken (tasks (job s j)) @ [t], buf := ts\<rparr>\<rparr>],
              err := t\<rparr>)"
proof -
  from assms(4,5) have w: "(wrk s)[i := WSelect] = wrk s" by (metis list_update_id)
  have e: "s\<lparr>err := None\<rparr> = s" using assms(6) [symmetric] by simp
  show ?thesis
  proof (cases t)
    case None
    with assms w e show ?thesis
      by (simp add: processQueue_step_def chan_recv_def dispatch_def startWorker_step_def
          job_def set_job_def set_wrk_def locked_def)
  next
    case (Some x)
    with assms w show ?thesis
      by (simp add: processQueue_step_def chan_recv_def dispatch_def startWorker_step_def
          job_def set_job_def set_wrk_def locked_def)
  qed
qed

lemma serve_all:
  assumes "sched s = SchedDrain j" and "j < length (jobs s)"
    and "buf (tasks (job s j)) = ts" and "i < length (wrk s)" and "wrk s ! i = WSelect"
    and "ts \<noteq> [] \<longrightarrow> err s = None" and "0 \<le> sg s" and "\<forall>t \<in> set (butlast ts). t = None"
  shows "run s (serve_events i ts) =
     Next (s\<lparr>jobs := (jobs s)[j := (job s j)\<lparr>tasks :=
                (tasks (job s j))\<lparr>taken := taken (tasks (job s j)) @ ts, buf := []\<rparr>\<rparr>],
              err := (if ts = [] then err s else last ts)\<rparr>)"
  using assms
proof (induction ts arbitrary: s)
  case Nil
  have "(tasks (job s j))\<lparr>taken := taken (tasks (job s j)) @ [], buf := []\<rparr> = tasks (job s j)"
    using Nil.prems(3) [symmetric] by simp
  then have "(jobs s)[j := (job s j)\<lparr>tasks :=
                (tasks (job s j))\<lparr>taken := taken (tasks (job s j)) @ [], buf := []\<rparr>\<rparr>] = jobs s"
    by (simp add: job_def)
  then show ?case by (simp add: serve_events_def)
next
  case (Cons t ts)
  let ?s1 = "s\<lparr>jobs := (jobs s)[j := (job s j)\<lparr>tasks :=
                (tasks (job s j))\<lparr>taken := taken (tasks (job s j)) @ [t], buf := ts\<rparr>\<rparr>],
              err := t\<rparr>"
  from Cons.prems(6) have en: "err s = None" by simp
  note r1 = serve_one [OF Cons.prems(1,2,3,4,5) en Cons.prems(7)]
  from Cons.prems(8) have t: "ts \<noteq> [] \<longrightarrow> t = None" and b: "\<forall>t \<in> set (butlast ts). t = None"
    by (auto split: if_splits)
  have h: "sched ?s1 = SchedDrain j" "j < length (jobs ?s1)" "buf (tasks (job ?s1 j)) = ts"
    "i < length (wrk ?s1)" "wrk ?s1 ! i = WSelect" "ts \<noteq> [] \<longrightarrow> err ?s1 = None" "0 \<le> sg ?s1"
    using Cons.prems(1,2,4,5,7) t by (simp_all add: job_def)
  note r2 = Cons.IH [OF h b]
  have e: "serve_events i (t # ts) =
      ([Sched, Sched, Dispatch i, Work i, Work i] @
       (case t of Some e \<Rightarrow> [Work i] | None \<Rightarrow> []) @ [Work i]) @ serve_events i ts"
    by (simp add: serve_events_def)
  have "run ?s1 (serve_events i ts) =
     Next (s\<lparr>jobs := (jobs s)[j := (job s j)\<lparr>tasks :=
                (tasks (job s j))\<lparr>taken := taken (tasks (job s j)) @ t # ts, buf := []\<rparr>\<rparr>],
              err := (if t # ts = [] then err s else last (t # ts))\<rparr>)"
    unfolding r2 using Cons.prems(2) by (simp add: job_def)
  from run_then [OF r1 this] show ?case unfolding e .
qed

text \<open>
  A finalized job in which no task follows a failing one, served by one worker: the
  schedule \<open>execute_events\<close> can run and ends with \<open>completed\<close> closed, the outcome
  sent and the error slot empty.
\<close>

lemma execute_run:
  assumes "inv s" and "sched s = SchedCheck j" and "\<not> shouldShutdown s"
    and "closed (tasks (job s j))" and "buf (tasks (job s j)) = ts"
    and "\<forall>t \<in> set (butlast ts). t = None" and "i < length (wrk s)" and "wrk s ! i = WSelect"
  shows "run s (execute_events i ts) =
     Next (s\<lparr>jobs := (jobs s)[j := executed_Job ts (outcome_of ts) (job s j)],
              err := None, sched := SchedRecv\<rparr>)"
proof -
  from assms(2) have c: "cur (sched s) = Some j" by simp
  note p = inv_parts [OF assms(1)]
  note u = inv_queue_unresolved [OF p(2) c] inv_queue_cur [OF p(2) c]
  from p(1) assms(2) have sg: "sg s = 0" and en: "err s = None" by (simp_all add: inv_sg_def)
  from u(5) assms(2) have nc: "\<not> completed (job s j)" by simp
  let ?s0 = "s\<lparr>sched := SchedDrain j\<rparr>"
  from assms(2,3) have r0: "run s [Sched] = Next ?s0" by (simp add: processQueue_step_def)
  have h: "sched ?s0 = SchedDrain j" "j < length (jobs ?s0)" "buf (tasks (job ?s0 j)) = ts"
    "i < length (wrk ?s0)" "wrk ?s0 ! i = WSelect" "ts \<noteq> [] \<longrightarrow> err ?s0 = None" "0 \<le> sg ?s0"
    using u(6) assms(5,7,8) sg en by (simp_all add: job_def)
  note r1 = serve_all [OF h assms(6)]
  have o: "(if ts = [] then err ?s0 else last ts) = outcome_of ts"
    using en by (simp add: outcome_of_def)
  let ?s2 = "?s0\<lparr>jobs := (jobs ?s0)[j := (job ?s0 j)\<lparr>tasks :=
                (tasks (job ?s0 j))\<lparr>taken := taken (tasks (job ?s0 j)) @ ts, buf := []\<rparr>\<rparr>],
              err := outcome_of ts\<rparr>"
  from r1 have r1': "run ?s0 (serve_events i ts) = Next ?s2" unfolding o .
  have r2: "run ?s2 [Sched, Sched, Sched, Sched] =
     Next (s\<lparr>jobs := (jobs s)[j := executed_Job ts (outcome_of ts) (job s j)],
              err := None, sched := SchedRecv\<rparr>)"
    using u assms(4) sg nc
    by (simp add: processQueue_step_def chan_recv_def chan_send_def job_def set_job_def
        executed_Job_def)
  from run_then [OF r0 run_then [OF r1' r2]] show ?thesis by (simp add: execute_events_def)
qed

text \<open>Once the WaitGroup counter is zero, the scheduler passes lines 72 to 79.\<close>

lemma finish_run:
  assumes "inv s" and "sched s = SchedWait j" and "sg s = 0"
  shows "run s [Sched, Sched, Sched] =
     Next (s\<lparr>jobs := (jobs s)[j := (job s j)\<lparr>completed := True,
                result := (result (job s j))\<lparr>buf := [err s]\<rparr>\<rparr>],
              err := None, sched := SchedRecv\<rparr>)"
proof -
  from assms(2) have c: "cur (sched s) = Some j" by simp
  note p = inv_parts [OF assms(1)]
  note u = inv_queue_unresolved [OF p(2) c] inv_queue_cur [OF p(2) c]
  from u(5) assms(2) have nc: "\<not> completed (job s j)" by simp
  from assms(2,3) u nc show ?thesis
    by (simp add: processQueue_step_def chan_send_def job_def set_job_def)
qed

text \<open>An outcome that has been delivered stays the only one.\<close>

lemma result_stays:
  assumes "inv s" and "run s es = Next s'" and "j < length (jobs s)"
    and "sent (result (job s j)) \<noteq> []"
  shows "sent (result (job s' j)) = sent (result (job s j))"
  using assms
proof (induction es arbitrary: s)
  case Nil
  then show ?case by simp
next
  case (Cons e es)
  from Cons.prems(2) obtain s1 where s1: "step s e = Next s1" and r: "run s1 es = Next s'"
    by (auto split: res.splits)
  from Cons.prems(1) s1 have i1: "inv s1" by (rule inv_step)
  from Cons.prems(3) step_jobs_length [OF s1] have j1: "j < length (jobs s1)" by simp
  from step_result [OF Cons.prems(1) s1 Cons.prems(3)] Cons.prems(4)
  have k: "sent (result (job s1 j)) = sent (result (job s j))" by blast
  with Cons.IH [OF i1 r j1] Cons.prems(4) show ?case by simp
qed

subsection \<open>The error slot\<close>

text \<open>
  A worker at lines 111 to 115 stores its error only when the slot is empty. Once the
  slot holds \<open>e\<close> while the scheduler executes job \<open>j\<close>, then after any further run
  either the scheduler is still executing \<open>j\<close>, the slot still holds \<open>e\<close> and no
  outcome has been delivered, or the one outcome of \<open>j\<close> is \<open>e\<close>. If \<open>Wait\<close>
  returns, it returns the one value that was ever sent on \<open>result\<close>.
\<close>

lemma first_error_kept:
  assumes "run_New workers maxJobs es = Next s"
  shows "(\<forall>i e. i < length (wrk s) \<and> wrk s ! i = WRecord e \<and> \<not> locked s \<longrightarrow>
            startWorker_step i s =
              Next (set_wrk i WFinish (s\<lparr>err := (if err s = None then Some e else err s)\<rparr>))) \<and>
         (\<forall>j e es' s'. cur (sched s) = Some j \<and> err s = Some e \<and> run s es' = Next s' \<longrightarrow>
            (cur (sched s') = Some j \<and> err s' = Some e \<and> sent (result (job s' j)) = []) \<or>
            sent (result (job s' j)) = [Some e]) \<and>
         (\<forall>j r s'. Wait j s = Next (r, s') \<longrightarrow> sent (result (job s j)) = [r])"
proof -
  from assms have i: "inv s" by (rule inv_run_New)
  note p = inv_parts [OF i]
  have a: "\<forall>i e. i < length (wrk s) \<and> wrk s ! i = WRecord e \<and> \<not> locked s \<longrightarrow>
            startWorker_step i s =
              Next (set_wrk i WFinish (s\<lparr>err := (if err s = None then Some e else err s)\<rparr>))"
    by (simp add: startWorker_step_def)
  have b: "\<forall>j e es' s'. cur (sched s) = Some j \<and> err s = Some e \<and> run s es' = Next s' \<longrightarrow>
            (cur (sched s') = Some j \<and> err s' = Some e \<and> sent (result (job s' j)) = []) \<or>
            sent (result (job s' j)) = [Some e]"
  proof (intro allI impI)
    fix j e es' s'
    assume h: "cur (sched s) = Some j \<and> err s = Some e \<and> run s es' = Next s'"
    then have c: "cur (sched s) = Some j" by simp
    note u = inv_queue_unresolved [OF p(2) c] inv_queue_cur [OF p(2) c]
    from u have "sent (result (job s j)) = []" by (simp add: sent_def)
    with h have "(cur (sched s) = Some j \<and> err s = Some e \<and> sent (result (job s j)) = []) \<or>
         sent (result (job s j)) = [Some e]" by simp
    from first_error_run [OF i _ u(6) this] h
    show "(cur (sched s') = Some j \<and> err s' = Some e \<and> sent (result (job s' j)) = []) \<or>
            sent (result (job s' j)) = [Some e]" by blast
  qed
  have c: "\<forall>j r s'. Wait j s = Next (r, s') \<longrightarrow> sent (result (job s j)) = [r]"
    using Wait_returns_outcome [OF p(2)] by blast
  from a b c show ?thesis by blast
qed

text \<open>
  The error slot is empty whenever the scheduler is between two jobs, so it is empty
  when the execution of a job starts; no worker is busy then and the WaitGroup
  counter is zero. The step of lines 77 to 79 delivers the slot to the job and
  leaves the slot empty, and no other step empties an occupied slot. An error among
  the outcomes of a job is \<open>ErrShutdown\<close> or an error that one of the job's own
  tasks returns.
\<close>

lemma error_slot_between_jobs:
  assumes "run_New workers maxJobs es = Next s"
  shows "(between_jobs (sched s) \<longrightarrow>
            err s = None \<and> sg s = 0 \<and> (\<forall>i < length (wrk s). \<not> busy (wrk s ! i))) \<and>
         (\<forall>j. sched s = SchedCheck j \<and> \<not> shouldShutdown s \<longrightarrow>
            processQueue_step s = Next (s\<lparr>sched := SchedDrain j\<rparr>)) \<and>
         (\<forall>j. sched s = SchedResult j \<longrightarrow>
            (\<exists>s'. processQueue_step s = Next s' \<and> sched s' = SchedRecv \<and> err s' = None \<and>
                  sent (result (job s' j)) = [err s])) \<and>
         (\<forall>ev s'. step s ev = Next s' \<and> err s \<noteq> None \<and> err s' = None \<longrightarrow>
            ev = Sched \<and> (\<exists>j. sched s = SchedResult j \<and> sent (result (job s' j)) = [err s])) \<and>
         (\<forall>j e. j < length (jobs s) \<and> Some e \<in> set (sent (result (job s j))) \<longrightarrow>
            e = ErrShutdown \<or> Some e \<in> set (sent (tasks (job s j))))"
proof -
  from assms have i: "inv s" by (rule inv_run_New)
  note p = inv_parts [OF i]
  have a: "between_jobs (sched s) \<longrightarrow>
            err s = None \<and> sg s = 0 \<and> (\<forall>i < length (wrk s). \<not> busy (wrk s ! i))"
  proof
    assume b: "between_jobs (sched s)"
    then have nd: "\<not> dispatching (sched s)" by (rule between_jobs_not_dispatching)
    then have ns: "\<not> sending (sched s)" using sending_dispatching by blast
    from p(1) b nd ns have "err s = None" "sg s = 0" "cnt busy (wrk s) = 0"
      by (simp_all add: inv_sg_def)
    then show "err s = None \<and> sg s = 0 \<and> (\<forall>i < length (wrk s). \<not> busy (wrk s ! i))"
      by (simp add: cnt_zero_iff)
  qed
  have b: "\<forall>j. sched s = SchedCheck j \<and> \<not> shouldShutdown s \<longrightarrow>
            processQueue_step s = Next (s\<lparr>sched := SchedDrain j\<rparr>)"
    by (simp add: processQueue_step_def)
  have c: "\<forall>j. sched s = SchedResult j \<longrightarrow>
            (\<exists>s'. processQueue_step s = Next s' \<and> sched s' = SchedRecv \<and> err s' = None \<and>
                  sent (result (job s' j)) = [err s])"
  proof (intro allI impI)
    fix j
    assume k: "sched s = SchedResult j"
    then have "cur (sched s) = Some j" by simp
    note u = inv_queue_unresolved [OF p(2) this] inv_queue_cur [OF p(2) this]
    from k u show "\<exists>s'. processQueue_step s = Next s' \<and> sched s' = SchedRecv \<and> err s' = None \<and>
                  sent (result (job s' j)) = [err s]"
      by (simp add: processQueue_step_def chan_send_def sent_def job_def set_job_def)
  qed
  have d: "\<forall>ev s'. step s ev = Next s' \<and> err s \<noteq> None \<and> err s' = None \<longrightarrow>
            ev = Sched \<and> (\<exists>j. sched s = SchedResult j \<and> sent (result (job s' j)) = [err s])"
    using step_err_Some [OF i] by fastforce
  have e: "\<forall>j e. j < length (jobs s) \<and> Some e \<in> set (sent (result (job s j))) \<longrightarrow>
            e = ErrShutdown \<or> Some e \<in> set (sent (tasks (job s j)))"
    using p(4) by (simp add: inv_tasks_def)
  from a b c d e show ?thesis by blast
qed

subsection \<open>A scheduler left without workers\<close>

text \<open>
  When every worker has ended at line 106 while the scheduler is at the send of line
  70, nothing moves any more: no step of any goroutine changes the scheduler's
  position, the workers, the error slot, the WaitGroup counter or the \<open>result\<close>
  channel and \<open>completed\<close> of the job.
\<close>

lemma parked_step:
  assumes "step s ev = Next s'" and "sched s = SchedSend j t"
    and "\<forall>i < length (wrk s). wrk s ! i = WExited" and "j < length (jobs s)"
    and "buf (result (job s j)) = []" and "\<not> closed (result (job s j))"
  shows "sched s' = SchedSend j t \<and> wrk s' = wrk s \<and> err s' = err s \<and> sg s' = sg s \<and>
         j < length (jobs s') \<and> result (job s' j) = result (job s j) \<and>
         completed (job s' j) = completed (job s j)"
  using assms(1)
  by (cases rule: step_cases)
    (use assms(2-) in \<open>auto simp: job_def set_job_def set_wrk_def nth_list_update_if nth_append\<close>)

lemma parked_run:
  assumes "run s es = Next s'" and "sched s = SchedSend j t"
    and "\<forall>i < length (wrk s). wrk s ! i = WExited" and "j < length (jobs s)"
    and "buf (result (job s j)) = []" and "\<not> closed (result (job s j))"
  shows "sched s' = SchedSend j t \<and> wrk s' = wrk s \<and> err s' = err s \<and> sg s' = sg s \<and>
         j < length (jobs s') \<and> result (job s' j) = result (job s j) \<and>
         completed (job s' j) = completed (job s j)"
  using assms
proof (induction es arbitrary: s)
  case Nil
  then show ?case by simp
next
  case (Cons e es)
  from Cons.prems(1) obtain s1 where s1: "step s e = Next s1" and r: "run s1 es = Next s'"
    by (auto split: res.splits)
  note k = parked_step [OF s1 Cons.prems(2-)]
  from k Cons.prems have "sched s1 = SchedSend j t" "\<forall>i < length (wrk s1). wrk s1 ! i = WExited"
    "j < length (jobs s1)" "buf (result (job s1 j)) = []" "\<not> closed (result (job s1 j))"
    by simp_all
  from Cons.IH [OF r this] k show ?case by simp
qed


section \<open>The claims\<close>

lemmas eval_defs = run_New_def New_def processQueue_step_def ack_block_def startWorker_step_def
  dispatch_def Stop_step_def confirm_def NewJob_call_def NewJob_enqueue_def NewJob_send_def
  NewJob_def Go_def Done_def callback_step_def Wait_def new_Job_def job_def set_job_def
  set_wrk_def locked_def chan_defs

text \<open>
  C1: a worker that skips a task, because the error slot is occupied, goes back to
  its \<open>select\<close>. The code does not: line 106 is \<open>return\<close>. One worker, one job
  with a failing task and then a succeeding one: the worker runs the first task and
  records its error, receives the second, finds the slot occupied, calls
  \<open>w.sg.Done()\<close> and ends, although nobody has closed \<open>stopWorkers\<close> and \<open>Stop\<close>
  was never called.
\<close>

theorem worker_exits_on_skip:
  "map_res wrk (run_New 1 1
     [NewJobCall 2, NewJobSend 0, GoCall 0 (Some (TaskErr ''x'')), GoCall 0 None,
      DoneCall 0 False, Sched, Sched, Sched, Sched, Dispatch 0, Work 0, Work 0, Work 0, Work 0,
      Sched, Sched, Dispatch 0, Work 0, Work 0]) = Next [WExited] \<and>
   map_res stopWorkers (run_New 1 1
     [NewJobCall 2, NewJobSend 0, GoCall 0 (Some (TaskErr ''x'')), GoCall 0 None,
      DoneCall 0 False, Sched, Sched, Sched, Sched, Dispatch 0, Work 0, Work 0, Work 0, Work 0,
      Sched, Sched, Dispatch 0, Work 0, Work 0]) = Next False \<and>
   map_res stop (run_New 1 1
     [NewJobCall 2, NewJobSend 0, GoCall 0 (Some (TaskErr ''x'')), GoCall 0 None,
      DoneCall 0 False, Sched, Sched, Sched, Sched, Dispatch 0, Work 0, Work 0, Work 0, Work 0,
      Sched, Sched, Dispatch 0, Work 0, Work 0]) = Next StopNotCalled"
  by (simp add: eval_defs)

text \<open>
  Two runs in which a job handed to the pool has no outcome delivered after its
  completion signal. In the first, \<open>Stop\<close> has returned and \<open>Wait\<close> has received
  \<open>ErrShutdown\<close>, while \<open>completed\<close> is still open and the callback given to \<open>Done\<close>
  is still waiting: the outcome of a job that the scheduler resolves with the
  shutdown error is delivered although the completion signal has not fired. In the
  second, the caller has pushed one task and has not called \<open>Done\<close>: the task has
  been run, the scheduler waits at \<open>range j.tasks\<close>, the worker waits at its
  \<open>select\<close>, and no outcome has been delivered.
\<close>

theorem outcome_without_completion_or_finalize:
  "map_res jobs (run_New 1 1
     [NewJobCall 0, NewJobSend 0, DoneCall 0 True, StopCall, StopCall, Sched, Sched, Sched,
      Sched, Sched, StopCall, StopCall, Work 0, Confirm 0, StopCall, WaitCall 0]) =
   Next [\<lparr>tasks = \<lparr>taken = [], buf = [], cap = 0, closed = True\<rparr>, completed = False,
          result = \<lparr>taken = [Some ErrShutdown], buf = [], cap = 1, closed = False\<rparr>,
          callback = CallbackWaiting\<rparr>] \<and>
   map_res stop (run_New 1 1
     [NewJobCall 0, NewJobSend 0, DoneCall 0 True, StopCall, StopCall, Sched, Sched, Sched,
      Sched, Sched, StopCall, StopCall, Work 0, Confirm 0, StopCall, WaitCall 0]) =
   Next StopReturned \<and>
   map_res jobs (run_New 1 1
     [NewJobCall 1, NewJobSend 0, GoCall 0 None, Sched, Sched, Sched, Sched, Dispatch 0,
      Work 0, Work 0, Work 0]) =
   Next [\<lparr>tasks = \<lparr>taken = [None], buf = [], cap = 1, closed = False\<rparr>, completed = False,
          result = \<lparr>taken = [], buf = [], cap = 1, closed = False\<rparr>,
          callback = NoCallback\<rparr>] \<and>
   map_res processQueue_step (run_New 1 1
     [NewJobCall 1, NewJobSend 0, GoCall 0 None, Sched, Sched, Sched, Sched, Dispatch 0,
      Work 0, Work 0, Work 0]) = Next Blocked \<and>
   map_res (startWorker_step 0) (run_New 1 1
     [NewJobCall 1, NewJobSend 0, GoCall 0 None, Sched, Sched, Sched, Sched, Dispatch 0,
      Work 0, Work 0, Work 0]) = Next Blocked \<and>
   map_res (map_res fst \<circ> Wait 0) (run_New 1 1
     [NewJobCall 1, NewJobSend 0, GoCall 0 None, Sched, Sched, Sched, Sched, Dispatch 0,
      Work 0, Work 0, Work 0]) = Next Blocked"
  by (simp add: eval_defs)

text \<open>
  C2, as the code has it. In every reachable state, for every job \<open>j\<close>:
  the outcome is never delivered more than once; it has been delivered exactly once
  as soon as the scheduler has resolved the job; once delivered it stays. Only the
  scheduler delivers it, either at lines 77 to 79, where \<open>completed\<close> of the job
  is closed already and the value is the error slot, or at line 63, where the
  shutdown flag is set, \<open>completed\<close> is not closed and the value is \<open>ErrShutdown\<close>;
  in that case \<open>completed\<close> is never closed afterwards. The scheduler takes the job
  at the head of the queue. When it has taken job \<open>j\<close> and the flag is set, its next
  two steps deliver \<open>ErrShutdown\<close>. When it has taken job \<open>j\<close>, the flag is not
  set, the job is finalized, no task of the job follows a failing one and some
  worker \<open>i\<close> waits at its \<open>select\<close>, the schedule \<open>execute_events\<close> of the
  scheduler and that worker can run and delivers the outcome, with \<open>completed\<close>
  closed. Whatever the tasks were, once the scheduler is at \<open>w.sg.Wait()\<close> and the
  counter is zero, its next three steps close \<open>completed\<close> and deliver the error
  slot.
\<close>

theorem outcome_delivered_exactly_once:
  assumes "run_New workers maxJobs es = Next s" and "j < length (jobs s)"
  shows "length (sent (result (job s j))) \<le> 1 \<and>
         (j < ndone s \<longrightarrow> length (sent (result (job s j))) = 1) \<and>
         (\<forall>es' s'. run s es' = Next s' \<and> sent (result (job s j)) \<noteq> [] \<longrightarrow>
            sent (result (job s' j)) = sent (result (job s j))) \<and>
         (\<forall>ev s'. step s ev = Next s' \<and> sent (result (job s' j)) \<noteq> sent (result (job s j)) \<longrightarrow>
            sent (result (job s j)) = [] \<and> ev = Sched \<and>
            ((sched s = SchedResult j \<and> completed (job s j) \<and>
              sent (result (job s' j)) = [err s]) \<or>
             (sched s = SchedReject j \<and> shouldShutdown s \<and> \<not> completed (job s j) \<and>
              sent (result (job s' j)) = [Some ErrShutdown]))) \<and>
         (\<forall>es' s'. sched s = SchedReject j \<and> run s es' = Next s' \<longrightarrow> \<not> completed (job s' j)) \<and>
         (\<forall>js. sched s = SchedRecv \<and> buf (queue s) = j # js \<longrightarrow>
            processQueue_step s =
              Next (s\<lparr>queue := (queue s)\<lparr>taken := taken (queue s) @ [j], buf := js\<rparr>,
                       sched := SchedCheck j\<rparr>)) \<and>
         (sched s = SchedCheck j \<and> shouldShutdown s \<longrightarrow>
            (\<exists>s'. run s [Sched, Sched] = Next s' \<and>
               sent (result (job s' j)) = [Some ErrShutdown] \<and> \<not> completed (job s' j) \<and>
               sched s' = SchedRecv)) \<and>
         (\<forall>i. sched s = SchedCheck j \<and> \<not> shouldShutdown s \<and> closed (tasks (job s j)) \<and>
              (\<forall>t \<in> set (butlast (buf (tasks (job s j)))). t = None) \<and>
              i < length (wrk s) \<and> wrk s ! i = WSelect \<longrightarrow>
            (\<exists>s'. run s (execute_events i (buf (tasks (job s j)))) = Next s' \<and>
               sent (result (job s' j)) = [outcome_of (buf (tasks (job s j)))] \<and>
               completed (job s' j) \<and> buf (tasks (job s' j)) = [] \<and>
               sched s' = SchedRecv \<and> err s' = None \<and> sg s' = 0 \<and> wrk s' = wrk s)) \<and>
         (sched s = SchedWait j \<and> sg s = 0 \<longrightarrow>
            (\<exists>s'. run s [Sched, Sched, Sched] = Next s' \<and>
               sent (result (job s' j)) = [err s] \<and> completed (job s' j) \<and>
               sched s' = SchedRecv \<and> err s' = None))"
proof -
  from assms(1) have i: "inv s" by (rule inv_run_New)
  note p = inv_parts [OF i]
  note q = p(2)
  from q assms(2) have a: "length (sent (result (job s j))) \<le> 1"
    and b: "j < ndone s \<longrightarrow> length (sent (result (job s j))) = 1"
    by (cases "j < ndone s"; auto simp: inv_queue_def)+
  have c: "\<forall>es' s'. run s es' = Next s' \<and> sent (result (job s j)) \<noteq> [] \<longrightarrow>
            sent (result (job s' j)) = sent (result (job s j))"
    using result_stays [OF i _ assms(2)] by blast
  have d: "\<forall>ev s'. step s ev = Next s' \<and> sent (result (job s' j)) \<noteq> sent (result (job s j)) \<longrightarrow>
            sent (result (job s j)) = [] \<and> ev = Sched \<and>
            ((sched s = SchedResult j \<and> completed (job s j) \<and>
              sent (result (job s' j)) = [err s]) \<or>
             (sched s = SchedReject j \<and> shouldShutdown s \<and> \<not> completed (job s j) \<and>
              sent (result (job s' j)) = [Some ErrShutdown]))"
    using step_result [OF i _ assms(2)] by blast
  have e: "\<forall>es' s'. sched s = SchedReject j \<and> run s es' = Next s' \<longrightarrow> \<not> completed (job s' j)"
  proof (intro allI impI)
    fix es' s'
    assume h: "sched s = SchedReject j \<and> run s es' = Next s'"
    then have "cur (sched s) = Some j" by simp
    from inv_queue_unresolved(5) [OF q this] h have "\<not> completed (job s j)" by simp
    from rejected_run [OF i _ assms(2) this] h show "\<not> completed (job s' j)" by blast
  qed
  have f: "\<forall>js. sched s = SchedRecv \<and> buf (queue s) = j # js \<longrightarrow>
            processQueue_step s =
              Next (s\<lparr>queue := (queue s)\<lparr>taken := taken (queue s) @ [j], buf := js\<rparr>,
                       sched := SchedCheck j\<rparr>)"
    by (simp add: processQueue_step_def chan_recv_def)
  have g: "sched s = SchedCheck j \<and> shouldShutdown s \<longrightarrow>
            (\<exists>s'. run s [Sched, Sched] = Next s' \<and>
               sent (result (job s' j)) = [Some ErrShutdown] \<and> \<not> completed (job s' j) \<and>
               sched s' = SchedRecv)"
  proof
    assume h: "sched s = SchedCheck j \<and> shouldShutdown s"
    then have k: "sched s = SchedCheck j" and fl: "shouldShutdown s" by simp_all
    from k have cu: "cur (sched s) = Some j" by simp
    note u = inv_queue_unresolved [OF q cu]
    from u(5) k have "\<not> completed (job s j)" by simp
    with reject_run [OF i k fl] u(4) assms(2)
    show "\<exists>s'. run s [Sched, Sched] = Next s' \<and>
               sent (result (job s' j)) = [Some ErrShutdown] \<and> \<not> completed (job s' j) \<and>
               sched s' = SchedRecv"
      by (simp add: job_def rejected_Job_def sent_def)
  qed
  have h: "\<forall>i. sched s = SchedCheck j \<and> \<not> shouldShutdown s \<and> closed (tasks (job s j)) \<and>
              (\<forall>t \<in> set (butlast (buf (tasks (job s j)))). t = None) \<and>
              i < length (wrk s) \<and> wrk s ! i = WSelect \<longrightarrow>
            (\<exists>s'. run s (execute_events i (buf (tasks (job s j)))) = Next s' \<and>
               sent (result (job s' j)) = [outcome_of (buf (tasks (job s j)))] \<and>
               completed (job s' j) \<and> buf (tasks (job s' j)) = [] \<and>
               sched s' = SchedRecv \<and> err s' = None \<and> sg s' = 0 \<and> wrk s' = wrk s)"
  proof (intro allI impI)
    fix i
    assume h: "sched s = SchedCheck j \<and> \<not> shouldShutdown s \<and> closed (tasks (job s j)) \<and>
              (\<forall>t \<in> set (butlast (buf (tasks (job s j)))). t = None) \<and>
              i < length (wrk s) \<and> wrk s ! i = WSelect"
    then have k: "sched s = SchedCheck j" and fl: "\<not> shouldShutdown s"
      and cl: "closed (tasks (job s j))"
      and bl: "\<forall>t \<in> set (butlast (buf (tasks (job s j)))). t = None"
      and il: "i < length (wrk s)" and iw: "wrk s ! i = WSelect" by simp_all
    from k have cu: "cur (sched s) = Some j" by simp
    note u = inv_queue_unresolved [OF q cu]
    from p(1) k have sg: "sg s = 0" by (simp add: inv_sg_def)
    from execute_run [OF i k fl cl refl bl il iw] u(4) assms(2) sg
    show "\<exists>s'. run s (execute_events i (buf (tasks (job s j)))) = Next s' \<and>
               sent (result (job s' j)) = [outcome_of (buf (tasks (job s j)))] \<and>
               completed (job s' j) \<and> buf (tasks (job s' j)) = [] \<and>
               sched s' = SchedRecv \<and> err s' = None \<and> sg s' = 0 \<and> wrk s' = wrk s"
      by (simp add: job_def executed_Job_def sent_def)
  qed
  have k: "sched s = SchedWait j \<and> sg s = 0 \<longrightarrow>
            (\<exists>s'. run s [Sched, Sched, Sched] = Next s' \<and>
               sent (result (job s' j)) = [err s] \<and> completed (job s' j) \<and>
               sched s' = SchedRecv \<and> err s' = None)"
  proof
    assume h: "sched s = SchedWait j \<and> sg s = 0"
    then have k: "sched s = SchedWait j" and sg: "sg s = 0" by simp_all
    from k have cu: "cur (sched s) = Some j" by simp
    note u = inv_queue_unresolved [OF q cu]
    from finish_run [OF i k sg] u(4) assms(2)
    show "\<exists>s'. run s [Sched, Sched, Sched] = Next s' \<and>
               sent (result (job s' j)) = [err s] \<and> completed (job s' j) \<and>
               sched s' = SchedRecv \<and> err s' = None"
      by (simp add: job_def sent_def)
  qed
  from a b c d e f g h k show ?thesis by blast
qed

text \<open>
  A pool of three workers. A job with a succeeding and then a failing task, finalized
  and taken by the scheduler: worker 1 serves it, the outcome is the error of the
  second task and \<open>completed\<close> is closed. A job taken by the scheduler after \<open>Stop\<close>
  has set the flag: the outcome is \<open>ErrShutdown\<close> and \<open>completed\<close> stays open.
\<close>

theorem outcome_delivered_exactly_once_witness:
  "map_res sched (run_New 3 1
     [NewJobCall 2, NewJobSend 0, GoCall 0 None, GoCall 0 (Some (TaskErr ''x'')),
      DoneCall 0 False, Sched]) = Next (SchedCheck 0) \<and>
   map_res wrk (run_New 3 1
     [NewJobCall 2, NewJobSend 0, GoCall 0 None, GoCall 0 (Some (TaskErr ''x'')),
      DoneCall 0 False, Sched]) = Next [WSelect, WSelect, WSelect] \<and>
   map_res (\<lambda>s. sent (result (job s 0))) (run_New 3 1
     ([NewJobCall 2, NewJobSend 0, GoCall 0 None, GoCall 0 (Some (TaskErr ''x'')),
       DoneCall 0 False, Sched] @
      execute_events 1 [None, Some (TaskErr ''x'')])) = Next [Some (TaskErr ''x'')] \<and>
   map_res (\<lambda>s. completed (job s 0)) (run_New 3 1
     ([NewJobCall 2, NewJobSend 0, GoCall 0 None, GoCall 0 (Some (TaskErr ''x'')),
       DoneCall 0 False, Sched] @
      execute_events 1 [None, Some (TaskErr ''x'')])) = Next True \<and>
   map_res sched (run_New 3 1 [NewJobCall 1, NewJobSend 0, GoCall 0 None, StopCall, Sched]) =
     Next (SchedCheck 0) \<and>
   map_res (\<lambda>s. sent (result (job s 0))) (run_New 3 1
     ([NewJobCall 1, NewJobSend 0, GoCall 0 None, StopCall, Sched] @ [Sched, Sched])) =
     Next [Some ErrShutdown] \<and>
   map_res (\<lambda>s. completed (job s 0)) (run_New 3 1
     ([NewJobCall 1, NewJobSend 0, GoCall 0 None, StopCall, Sched] @ [Sched, Sched])) =
     Next False"
proof -
  obtain s where r: "run_New 3 1
     [NewJobCall 2, NewJobSend 0, GoCall 0 None, GoCall 0 (Some (TaskErr ''x'')),
      DoneCall 0 False, Sched] = Next s"
    and k: "sched s = SchedCheck 0" and l: "length (jobs s) = 1"
    and fl: "\<not> shouldShutdown s" and cl: "closed (tasks (job s 0))"
    and b: "buf (tasks (job s 0)) = [None, Some (TaskErr ''x'')]"
    and w: "wrk s = [WSelect, WSelect, WSelect]"
    by (simp add: eval_defs numeral_3_eq_3)
  from l have j: "0 < length (jobs s)" by simp
  note h = outcome_delivered_exactly_once [OF r j, THEN conjunct2, THEN conjunct2,
      THEN conjunct2, THEN conjunct2, THEN conjunct2, THEN conjunct2, THEN conjunct2,
      THEN conjunct1, rule_format]
  from k fl cl b w have "sched s = SchedCheck 0 \<and> \<not> shouldShutdown s \<and> closed (tasks (job s 0)) \<and>
      (\<forall>t \<in> set (butlast (buf (tasks (job s 0)))). t = None) \<and>
      1 < length (wrk s) \<and> wrk s ! 1 = WSelect" by simp
  from h [OF this] obtain s' where
    r2: "run s (execute_events 1 (buf (tasks (job s 0)))) = Next s'"
    and o: "sent (result (job s' 0)) = [outcome_of (buf (tasks (job s 0)))]"
    and c: "completed (job s' 0)"
    by blast
  from r2 b have r2': "run s (execute_events 1 [None, Some (TaskErr ''x'')]) = Next s'" by simp
  note r3 = run_New_then [OF r r2']
  from o b have o': "sent (result (job s' 0)) = [Some (TaskErr ''x'')]"
    by (simp add: outcome_of_def)
  obtain t where q: "run_New 3 1 [NewJobCall 1, NewJobSend 0, GoCall 0 None, StopCall, Sched] = Next t"
    and tk: "sched t = SchedCheck 0" and tl: "length (jobs t) = 1" and tf: "shouldShutdown t"
    by (simp add: eval_defs numeral_3_eq_3)
  from tl have tj: "0 < length (jobs t)" by simp
  note g = outcome_delivered_exactly_once [OF q tj, THEN conjunct2, THEN conjunct2,
      THEN conjunct2, THEN conjunct2, THEN conjunct2, THEN conjunct2, THEN conjunct1, rule_format]
  from tk tf have "sched t = SchedCheck 0 \<and> shouldShutdown t" by simp
  from g [OF this] obtain t' where q2: "run t [Sched, Sched] = Next t'"
    and to: "sent (result (job t' 0)) = [Some ErrShutdown]" and tc: "\<not> completed (job t' 0)"
    by blast
  note q3 = run_New_then [OF q q2]
  from k w o' c tk to tc show ?thesis unfolding r r3 q q3 by simp
qed

text \<open>
  C3: \<open>Stop\<close> sets the shutdown flag, closes the queue, waits for the
  acknowledgment of the scheduler, closes \<open>stopWorkers\<close> and returns after
  \<open>count\<close> workers have confirmed. In every reachable state each step of \<open>Stop\<close>
  does what its line says and can neither panic nor block, except at the two waits:
  line 124 sets the flag, line 127 closes the queue, line 130 passes exactly when
  \<open>ackShutdown\<close> is closed, line 131 closes \<open>stopWorkers\<close>, and the loop of lines
  134 to 136 has counted the workers that have confirmed, takes the confirmation of
  any worker that offers one, and returns exactly when the count is \<open>count\<close>. In
  every reachable state: once \<open>Stop\<close> is past line 126 the flag is set; once it is
  past line 127 the queue is closed; once it is past line 130 the acknowledgment
  channel is closed, the scheduler has ended, the queue is empty and every job ever
  enqueued has exactly one outcome; \<open>stopWorkers\<close> is closed only after that; and
  when \<open>Stop\<close> has returned, every one of the \<open>nat workers\<close> worker goroutines
  has confirmed and ended. And \<open>Stop\<close> does return: called when the scheduler waits
  for a job and every worker waits at its \<open>select\<close>, with any number of jobs in the
  queue, the schedule \<open>shutdown_events\<close> can run; at its end \<open>Stop\<close> has returned,
  every queued job has got \<open>ErrShutdown\<close> and is otherwise untouched (no task was
  taken from it), and every worker has confirmed.
\<close>

theorem Stop_shuts_down_in_order:
  assumes "run_New workers maxJobs es = Next s"
  shows "(stop s = StopNotCalled \<and> \<not> locked s \<longrightarrow>
            Stop_step s = Next (s\<lparr>shouldShutdown := True, stop := StopCloseQueue\<rparr>)) \<and>
         (stop s = StopCloseQueue \<longrightarrow>
            Stop_step s = Next (s\<lparr>queue := (queue s)\<lparr>closed := True\<rparr>, stop := StopWaitAck\<rparr>)) \<and>
         (stop s = StopWaitAck \<longrightarrow>
            Stop_step s = (if ackShutdown s then Next (s\<lparr>stop := StopCloseWorkers\<rparr>) else Blocked)) \<and>
         (stop s = StopCloseWorkers \<longrightarrow>
            Stop_step s = Next (s\<lparr>stopWorkers := True, stop := StopLoop 0\<rparr>)) \<and>
         (\<forall>k. stop s = StopLoop k \<longrightarrow>
            k = cnt stopped (wrk s) \<and>
            Stop_step s = (if k < count s then Blocked else Next (s\<lparr>stop := StopReturned\<rparr>))) \<and>
         (\<forall>k i. stop s = StopLoop k \<and> i < length (wrk s) \<and> wrk s ! i = WConfirm \<longrightarrow>
            confirm i s = Next (set_wrk i WStopped (s\<lparr>stop := StopLoop (k + 1)\<rparr>))) \<and>
         (1 \<le> stage (stop s) \<longrightarrow> shouldShutdown s) \<and>
         (2 \<le> stage (stop s) \<longrightarrow> closed (queue s)) \<and>
         (3 \<le> stage (stop s) \<longrightarrow>
            ackShutdown s \<and> sched s = SchedDone \<and> buf (queue s) = [] \<and>
            (\<forall>j < length (jobs s). length (sent (result (job s j))) = 1)) \<and>
         (stopWorkers s \<longrightarrow> 4 \<le> stage (stop s)) \<and>
         (stop s = StopReturned \<longrightarrow>
            stopWorkers s \<and> count s = workers \<and> length (wrk s) = nat workers \<and>
            (\<forall>i < length (wrk s). wrk s ! i = WStopped)) \<and>
         (stop s = StopNotCalled \<and> sched s = SchedRecv \<and>
          (\<forall>i < length (wrk s). wrk s ! i = WSelect) \<longrightarrow>
            (\<exists>s'. run s (shutdown_events (length (buf (queue s))) (length (wrk s))) = Next s' \<and>
               stop s' = StopReturned \<and> length (wrk s') = nat workers \<and>
               (\<forall>i < length (wrk s'). wrk s' ! i = WStopped) \<and>
               (\<forall>j \<in> set (buf (queue s)). job s' j = rejected_Job (job s j)) \<and>
               buf (queue s') = [] \<and> sched s' = SchedDone \<and> sg s' = sg s \<and> err s' = err s))"
proof -
  from assms have i: "inv s" by (rule inv_run_New)
  then have st: "inv_stop s" and q: "inv_queue s" by (simp_all add: inv_def)
  from assms have c: "count s = workers" by (rule run_New_count)
  from st have lw: "length (wrk s) = nat (count s)" by (simp add: inv_stop_def)
  have e1: "stop s = StopNotCalled \<and> \<not> locked s \<longrightarrow>
            Stop_step s = Next (s\<lparr>shouldShutdown := True, stop := StopCloseQueue\<rparr>)"
    by (simp add: Stop_step_def)
  have e2: "stop s = StopCloseQueue \<longrightarrow>
            Stop_step s = Next (s\<lparr>queue := (queue s)\<lparr>closed := True\<rparr>, stop := StopWaitAck\<rparr>)"
    using st by (auto simp: Stop_step_def chan_close_def inv_stop_def)
  have e3: "stop s = StopWaitAck \<longrightarrow>
            Stop_step s = (if ackShutdown s then Next (s\<lparr>stop := StopCloseWorkers\<rparr>) else Blocked)"
    by (simp add: Stop_step_def)
  have e4: "stop s = StopCloseWorkers \<longrightarrow>
            Stop_step s = Next (s\<lparr>stopWorkers := True, stop := StopLoop 0\<rparr>)"
    using st by (auto simp: Stop_step_def inv_stop_def)
  have e5: "\<forall>k. stop s = StopLoop k \<longrightarrow>
            k = cnt stopped (wrk s) \<and>
            Stop_step s = (if k < count s then Blocked else Next (s\<lparr>stop := StopReturned\<rparr>))"
    using st by (auto simp: Stop_step_def inv_stop_def)
  have e6: "\<forall>k i. stop s = StopLoop k \<and> i < length (wrk s) \<and> wrk s ! i = WConfirm \<longrightarrow>
            confirm i s = Next (set_wrk i WStopped (s\<lparr>stop := StopLoop (k + 1)\<rparr>))"
  proof (intro allI impI)
    fix k i
    assume h: "stop s = StopLoop k \<and> i < length (wrk s) \<and> wrk s ! i = WConfirm"
    with st have k: "k = cnt stopped (wrk s)" by (simp add: inv_stop_def)
    from h have "cnt stopped (wrk s) < int (length (wrk s))"
      using cnt_less [of i "wrk s" stopped] by simp
    with k lw cnt_nonneg [of stopped "wrk s"] have "k < count s"
      by (simp split: if_splits)
    with h show "confirm i s = Next (set_wrk i WStopped (s\<lparr>stop := StopLoop (k + 1)\<rparr>))"
      by (simp add: confirm_def)
  qed
  have a: "1 \<le> stage (stop s) \<longrightarrow> shouldShutdown s"
    using st by (simp add: inv_stop_def)
  have b: "2 \<le> stage (stop s) \<longrightarrow> closed (queue s)"
    using st by (simp add: inv_stop_def)
  have d: "3 \<le> stage (stop s) \<longrightarrow>
            ackShutdown s \<and> sched s = SchedDone \<and> buf (queue s) = [] \<and>
            (\<forall>j < length (jobs s). length (sent (result (job s j))) = 1)"
  proof
    assume "3 \<le> stage (stop s)"
    with st have k: "ackShutdown s" "sched s = SchedDone" "buf (queue s) = []"
      by (auto simp: inv_stop_def)
    with inv_all_resolved [OF q] show "ackShutdown s \<and> sched s = SchedDone \<and> buf (queue s) = [] \<and>
            (\<forall>j < length (jobs s). length (sent (result (job s j))) = 1)"
      by simp
  qed
  have e: "stopWorkers s \<longrightarrow> 4 \<le> stage (stop s)"
    using st by (simp add: inv_stop_def)
  have f: "stop s = StopReturned \<longrightarrow>
            stopWorkers s \<and> count s = workers \<and> length (wrk s) = nat workers \<and>
            (\<forall>i < length (wrk s). wrk s ! i = WStopped)"
  proof
    assume r: "stop s = StopReturned"
    with st have k: "cnt stopped (wrk s) = int (length (wrk s))" and k2: "stopWorkers s"
      by (auto simp: inv_stop_def)
    from k have "\<forall>i < length (wrk s). wrk s ! i = WStopped"
      by (simp add: cnt_all_iff stopped_iff)
    with k2 lw show "stopWorkers s \<and> count s = workers \<and> length (wrk s) = nat workers \<and>
            (\<forall>i < length (wrk s). wrk s ! i = WStopped)"
      using c by simp
  qed
  have g: "stop s = StopNotCalled \<and> sched s = SchedRecv \<and>
          (\<forall>i < length (wrk s). wrk s ! i = WSelect) \<longrightarrow>
            (\<exists>s'. run s (shutdown_events (length (buf (queue s))) (length (wrk s))) = Next s' \<and>
               stop s' = StopReturned \<and> length (wrk s') = nat workers \<and>
               (\<forall>i < length (wrk s'). wrk s' ! i = WStopped) \<and>
               (\<forall>j \<in> set (buf (queue s)). job s' j = rejected_Job (job s j)) \<and>
               buf (queue s') = [] \<and> sched s' = SchedDone \<and> sg s' = sg s \<and> err s' = err s)"
  proof
    assume h: "stop s = StopNotCalled \<and> sched s = SchedRecv \<and>
          (\<forall>i < length (wrk s). wrk s ! i = WSelect)"
    then have h1: "stop s = StopNotCalled" and h2: "sched s = SchedRecv"
      and h3: "\<forall>i < length (wrk s). wrk s ! i = WSelect" by simp_all
    from shutdown_run [OF i h1 h2 h3] lw c
    show "\<exists>s'. run s (shutdown_events (length (buf (queue s))) (length (wrk s))) = Next s' \<and>
               stop s' = StopReturned \<and> length (wrk s') = nat workers \<and>
               (\<forall>i < length (wrk s'). wrk s' ! i = WStopped) \<and>
               (\<forall>j \<in> set (buf (queue s)). job s' j = rejected_Job (job s j)) \<and>
               buf (queue s') = [] \<and> sched s' = SchedDone \<and> sg s' = sg s \<and> err s' = err s"
      by auto
  qed
  from e1 e2 e3 e4 e5 e6 a b d e f g show ?thesis by blast
qed

text \<open>
  Three workers and two jobs in the queue, the first holding a task, when \<open>Stop\<close>
  is called: both jobs get \<open>ErrShutdown\<close>, the task stays in its channel, the three
  workers confirm, \<open>Stop\<close> returns.
\<close>

theorem Stop_shuts_down_in_order_witness:
  "map_res stop (run_New 3 2 [NewJobCall 1, NewJobSend 0, GoCall 0 None, NewJobCall 0, NewJobSend 0]) =
     Next StopNotCalled \<and>
   map_res sched (run_New 3 2 [NewJobCall 1, NewJobSend 0, GoCall 0 None, NewJobCall 0, NewJobSend 0]) =
     Next SchedRecv \<and>
   map_res wrk (run_New 3 2 [NewJobCall 1, NewJobSend 0, GoCall 0 None, NewJobCall 0, NewJobSend 0]) =
     Next [WSelect, WSelect, WSelect] \<and>
   map_res (\<lambda>s. buf (queue s))
     (run_New 3 2 [NewJobCall 1, NewJobSend 0, GoCall 0 None, NewJobCall 0, NewJobSend 0]) =
     Next [0, 1] \<and>
   map_res stop (run_New 3 2
     ([NewJobCall 1, NewJobSend 0, GoCall 0 None, NewJobCall 0, NewJobSend 0] @
      shutdown_events 2 3)) = Next StopReturned \<and>
   map_res wrk (run_New 3 2
     ([NewJobCall 1, NewJobSend 0, GoCall 0 None, NewJobCall 0, NewJobSend 0] @
      shutdown_events 2 3)) = Next [WStopped, WStopped, WStopped] \<and>
   map_res (\<lambda>s. buf (result (job s 0))) (run_New 3 2
     ([NewJobCall 1, NewJobSend 0, GoCall 0 None, NewJobCall 0, NewJobSend 0] @
      shutdown_events 2 3)) = Next [Some ErrShutdown] \<and>
   map_res (\<lambda>s. buf (tasks (job s 0))) (run_New 3 2
     ([NewJobCall 1, NewJobSend 0, GoCall 0 None, NewJobCall 0, NewJobSend 0] @
      shutdown_events 2 3)) = Next [None] \<and>
   map_res (\<lambda>s. buf (result (job s 1))) (run_New 3 2
     ([NewJobCall 1, NewJobSend 0, GoCall 0 None, NewJobCall 0, NewJobSend 0] @
      shutdown_events 2 3)) = Next [Some ErrShutdown]"
proof -
  obtain s where r: "run_New 3 2
      [NewJobCall 1, NewJobSend 0, GoCall 0 None, NewJobCall 0, NewJobSend 0] = Next s"
    and h1: "stop s = StopNotCalled" and h2: "sched s = SchedRecv"
    and w: "wrk s = [WSelect, WSelect, WSelect]" and b: "buf (queue s) = [0, 1]"
    and t: "buf (tasks (job s 0)) = [None]"
    by (simp add: eval_defs numeral_3_eq_3)
  from w have h3: "\<forall>i < length (wrk s). wrk s ! i = WSelect"
    by (simp add: nth_Cons' )
  note g = Stop_shuts_down_in_order [OF r, THEN conjunct2, THEN conjunct2, THEN conjunct2,
      THEN conjunct2, THEN conjunct2, THEN conjunct2, THEN conjunct2, THEN conjunct2,
      THEN conjunct2, THEN conjunct2, THEN conjunct2, rule_format]
  from h1 h2 h3 have "stop s = StopNotCalled \<and> sched s = SchedRecv \<and>
      (\<forall>i < length (wrk s). wrk s ! i = WSelect)" by simp
  from g [OF this]
  obtain s' where r2: "run s (shutdown_events (length (buf (queue s))) (length (wrk s))) = Next s'"
    and p1: "stop s' = StopReturned" and p2: "length (wrk s') = nat 3"
    and p3: "\<forall>i < length (wrk s'). wrk s' ! i = WStopped"
    and p4: "\<forall>j \<in> set (buf (queue s)). job s' j = rejected_Job (job s j)"
    by blast
  from w b have "length (buf (queue s)) = 2" and "length (wrk s) = 3" by simp_all
  with r2 have r2': "run s (shutdown_events 2 3) = Next s'" by metis
  note r3 = run_New_then [OF r r2']
  from p2 p3 have w': "wrk s' = [WStopped, WStopped, WStopped]"
    by (auto simp: list_eq_iff_nth_eq less_Suc_eq numeral_3_eq_3)
  from p4 b have j: "job s' 0 = rejected_Job (job s 0)"
    "job s' (Suc 0) = rejected_Job (job s (Suc 0))"
    by simp_all
  from h1 h2 w b p1 w' t show ?thesis unfolding r r3 by (simp add: j rejected_Job_def)
qed

text \<open>
  C4: \<open>Wait\<close> returns the first error captured in the slot. The code does not
  always: one worker, one job with a failing task and then two succeeding ones. The
  worker runs the first task and stores its error \<open>x\<close> in the empty slot; it
  receives the second task, finds the slot occupied and ends at line 106; the
  scheduler takes the third task and parks at the send of line 70, which nobody
  receives. In this state and in every state that any further run of any goroutines
  reaches, the slot holds \<open>x\<close>, nothing has been sent on \<open>result\<close>, \<open>Wait\<close> is
  blocked, and the scheduler and the worker cannot move.
\<close>

theorem first_error_never_returned:
  assumes "run_New 1 1
     ([NewJobCall 3, NewJobSend 0, GoCall 0 (Some (TaskErr ''x'')), GoCall 0 None, GoCall 0 None,
       DoneCall 0 False, Sched, Sched, Sched, Sched, Dispatch 0, Work 0, Work 0, Work 0, Work 0,
       Sched, Sched, Dispatch 0, Work 0, Work 0, Sched, Sched] @ es) = Next s"
  shows "err s = Some (TaskErr ''x'') \<and> sent (result (job s 0)) = [] \<and> Wait 0 s = Blocked \<and>
         sched s = SchedSend 0 None \<and> wrk s = [WExited] \<and>
         processQueue_step s = Blocked \<and> dispatch 0 s = Blocked \<and>
         startWorker_step 0 s = Blocked"
proof -
  obtain s0 where r: "run_New 1 1
     [NewJobCall 3, NewJobSend 0, GoCall 0 (Some (TaskErr ''x'')), GoCall 0 None, GoCall 0 None,
      DoneCall 0 False, Sched, Sched, Sched, Sched, Dispatch 0, Work 0, Work 0, Work 0, Work 0,
      Sched, Sched, Dispatch 0, Work 0, Work 0, Sched, Sched] = Next s0"
    and k: "sched s0 = SchedSend 0 None" and w: "wrk s0 = [WExited]"
    and e: "err s0 = Some (TaskErr ''x'')" and l: "0 < length (jobs s0)"
    and b: "buf (result (job s0 0)) = []" and c: "\<not> closed (result (job s0 0))"
    and t: "taken (result (job s0 0)) = []"
    by (simp add: eval_defs)
  from assms have r2: "run s0 es = Next s" unfolding run_New_append r by simp
  from w have a: "\<forall>i < length (wrk s0). wrk s0 ! i = WExited" by simp
  from parked_run [OF r2 k a l b c] k w e b c t
  show ?thesis
    by (simp add: sent_def Wait_def chan_recv_def processQueue_step_def dispatch_def
        startWorker_step_def)
qed

text \<open>
  The callers go on (a second job is submitted and finalized): \<open>Wait\<close> on the first
  job is still blocked.
\<close>

theorem first_error_never_returned_witness:
  "map_res err (run_New 1 1
     ([NewJobCall 3, NewJobSend 0, GoCall 0 (Some (TaskErr ''x'')), GoCall 0 None, GoCall 0 None,
       DoneCall 0 False, Sched, Sched, Sched, Sched, Dispatch 0, Work 0, Work 0, Work 0, Work 0,
       Sched, Sched, Dispatch 0, Work 0, Work 0, Sched, Sched] @
      [NewJobCall 0, NewJobSend 0, DoneCall 1 False])) = Next (Some (TaskErr ''x'')) \<and>
   map_res (map_res fst \<circ> Wait 0) (run_New 1 1
     ([NewJobCall 3, NewJobSend 0, GoCall 0 (Some (TaskErr ''x'')), GoCall 0 None, GoCall 0 None,
       DoneCall 0 False, Sched, Sched, Sched, Sched, Dispatch 0, Work 0, Work 0, Work 0, Work 0,
       Sched, Sched, Dispatch 0, Work 0, Work 0, Sched, Sched] @
      [NewJobCall 0, NewJobSend 0, DoneCall 1 False])) = Next Blocked"
proof -
  obtain s where r: "run_New 1 1
     ([NewJobCall 3, NewJobSend 0, GoCall 0 (Some (TaskErr ''x'')), GoCall 0 None, GoCall 0 None,
       DoneCall 0 False, Sched, Sched, Sched, Sched, Dispatch 0, Work 0, Work 0, Work 0, Work 0,
       Sched, Sched, Dispatch 0, Work 0, Work 0, Sched, Sched] @
      [NewJobCall 0, NewJobSend 0, DoneCall 1 False]) = Next s"
    by (simp add: eval_defs)
  from first_error_never_returned [OF r]
  have "err s = Some (TaskErr ''x'')" and "Wait 0 s = Blocked" by simp_all
  then show ?thesis unfolding r by simp
qed

text \<open>
  C5: the error slot is reset once per executed job, after the outcome of the job has
  been delivered. The code does not always: in the run of one worker and one job
  with a failing task and then two succeeding ones, the scheduler is left parked at
  line 70 inside the execution of the job. In this state and in every state that any
  further run reaches, the slot still holds the error \<open>x\<close> of the job, the scheduler
  is still executing the job, \<open>completed\<close> is open, and no job of the pool has an
  outcome: lines 75 to 79 are never reached.
\<close>

theorem error_slot_never_reset:
  assumes "run_New 1 1
     ([NewJobCall 3, NewJobSend 0, GoCall 0 (Some (TaskErr ''x'')), GoCall 0 None, GoCall 0 None,
       DoneCall 0 False, Sched, Sched, Sched, Sched, Dispatch 0, Work 0, Work 0, Work 0, Work 0,
       Sched, Sched, Dispatch 0, Work 0, Work 0, Sched, Sched] @ es) = Next s"
  shows "err s = Some (TaskErr ''x'') \<and> cur (sched s) = Some 0 \<and> \<not> between_jobs (sched s) \<and>
         \<not> completed (job s 0) \<and> sent (result (job s 0)) = [] \<and> ndone s = 0 \<and>
         (\<forall>j < length (jobs s). sent (result (job s j)) = [])"
proof -
  obtain s0 where r: "run_New 1 1
     [NewJobCall 3, NewJobSend 0, GoCall 0 (Some (TaskErr ''x'')), GoCall 0 None, GoCall 0 None,
      DoneCall 0 False, Sched, Sched, Sched, Sched, Dispatch 0, Work 0, Work 0, Work 0, Work 0,
      Sched, Sched, Dispatch 0, Work 0, Work 0, Sched, Sched] = Next s0"
    and k: "sched s0 = SchedSend 0 None" and w: "wrk s0 = [WExited]"
    and e: "err s0 = Some (TaskErr ''x'')" and l: "0 < length (jobs s0)"
    and b: "buf (result (job s0 0)) = []" and c: "\<not> closed (result (job s0 0))"
    and t: "taken (result (job s0 0)) = []" and n: "\<not> completed (job s0 0)"
    by (simp add: eval_defs)
  from assms have r2: "run s0 es = Next s" unfolding run_New_append r by simp
  from w have a: "\<forall>i < length (wrk s0). wrk s0 ! i = WExited" by simp
  note p = parked_run [OF r2 k a l b c]
  from assms have i: "inv s" by (rule inv_run_New)
  from p have cu: "cur (sched s) = Some 0" by simp
  note u = inv_queue_cur [OF inv_parts(2) [OF i] cu]
  from inv_parts(2) [OF i] u(2)
  have "\<forall>j < length (jobs s). sent (result (job s j)) = []"
    by (simp add: inv_queue_def)
  with p e b t n u(2) show ?thesis by (simp add: sent_def)
qed

text \<open>
  A second job with a task is submitted and finalized, and \<open>Stop\<close> is called: the
  slot still holds \<open>x\<close> and the second job has no outcome.
\<close>

theorem error_slot_never_reset_witness:
  "map_res err (run_New 1 1
     ([NewJobCall 3, NewJobSend 0, GoCall 0 (Some (TaskErr ''x'')), GoCall 0 None, GoCall 0 None,
       DoneCall 0 False, Sched, Sched, Sched, Sched, Dispatch 0, Work 0, Work 0, Work 0, Work 0,
       Sched, Sched, Dispatch 0, Work 0, Work 0, Sched, Sched] @
      [NewJobCall 1, NewJobSend 0, GoCall 1 None, DoneCall 1 False, StopCall, StopCall])) =
     Next (Some (TaskErr ''x'')) \<and>
   map_res (\<lambda>s. sent (result (job s 1))) (run_New 1 1
     ([NewJobCall 3, NewJobSend 0, GoCall 0 (Some (TaskErr ''x'')), GoCall 0 None, GoCall 0 None,
       DoneCall 0 False, Sched, Sched, Sched, Sched, Dispatch 0, Work 0, Work 0, Work 0, Work 0,
       Sched, Sched, Dispatch 0, Work 0, Work 0, Sched, Sched] @
      [NewJobCall 1, NewJobSend 0, GoCall 1 None, DoneCall 1 False, StopCall, StopCall])) =
     Next []"
proof -
  obtain s where r: "run_New 1 1
     ([NewJobCall 3, NewJobSend 0, GoCall 0 (Some (TaskErr ''x'')), GoCall 0 None, GoCall 0 None,
       DoneCall 0 False, Sched, Sched, Sched, Sched, Dispatch 0, Work 0, Work 0, Work 0, Work 0,
       Sched, Sched, Dispatch 0, Work 0, Work 0, Sched, Sched] @
      [NewJobCall 1, NewJobSend 0, GoCall 1 None, DoneCall 1 False, StopCall, StopCall]) = Next s"
    and l: "length (jobs s) = 2"
    by (simp add: eval_defs)
  from error_slot_never_reset [OF r]
  have e: "err s = Some (TaskErr ''x'')"
    and a: "\<forall>j < length (jobs s). sent (result (job s j)) = []" by simp_all
  from a l have "sent (result (job s (Suc 0))) = []" by simp
  with e show ?thesis unfolding r by simp
qed

text \<open>
  C6: when the shutdown flag is set, \<open>NewJob\<close> returns no job and \<open>ErrShutdown\<close>,
  and the state is the one before the call: no job was allocated, nothing was sent
  on the queue, and no send is pending.
\<close>

theorem NewJob_fails_fast_when_shutting_down:
  assumes "shouldShutdown s" and "\<not> locked s"
  shows "NewJob taskBacklog s = Next ((None, Some ErrShutdown), s) \<and>
         NewJob_call taskBacklog s = Next s"
  using assms by (simp add: NewJob_def NewJob_call_def)

text \<open>
  After \<open>Stop\<close> has set the flag.
\<close>

theorem NewJob_fails_fast_when_shutting_down_witness:
  "map_res shouldShutdown (run_New 1 1 [StopCall]) = Next True \<and>
   map_res locked (run_New 1 1 [StopCall]) = Next False \<and>
   map_res (NewJob 3) (run_New 1 1 [StopCall]) =
     map_res (\<lambda>s. Next ((None, Some ErrShutdown), s)) (run_New 1 1 [StopCall])"
proof -
  obtain s where r: "run_New 1 1 [StopCall] = Next s" and f: "shouldShutdown s"
    and l: "\<not> locked s"
    by (simp add: eval_defs)
  from NewJob_fails_fast_when_shutting_down [OF f l, of 3]
  have "NewJob 3 s = Next ((None, Some ErrShutdown), s)" by simp
  with r f l show ?thesis by simp
qed

text \<open>
  C7: the shutdown flag, once set, stays set. When the scheduler has received job
  \<open>j\<close> and reads the flag as set, it goes to line 63; there the \<open>result\<close> channel of
  the job is still unused, and the step sends \<open>ErrShutdown\<close> on it and returns to the
  head of the loop. Nothing else changes: no task of the job is taken from its
  channel, the WaitGroup counter, the workers and the error slot are as before.
\<close>

theorem shutdown_rejects_dequeued_job:
  assumes "run_New workers maxJobs es = Next s"
  shows "(\<forall>ev s'. shouldShutdown s \<and> step s ev = Next s' \<longrightarrow> shouldShutdown s') \<and>
         (\<forall>j. sched s = SchedCheck j \<and> shouldShutdown s \<longrightarrow>
            processQueue_step s = Next (s\<lparr>sched := SchedReject j\<rparr>)) \<and>
         (\<forall>j. sched s = SchedReject j \<longrightarrow>
            shouldShutdown s \<and> sent (result (job s j)) = [] \<and>
            processQueue_step s =
              Next ((set_job j ((job s j)\<lparr>result := (result (job s j))\<lparr>buf := [Some ErrShutdown]\<rparr>\<rparr>) s)
                      \<lparr>sched := SchedRecv\<rparr>))"
proof -
  from assms have "inv s" by (rule inv_run_New)
  then have st: "inv_stop s" and q: "inv_queue s" by (simp_all add: inv_def)
  have a: "\<forall>ev s'. shouldShutdown s \<and> step s ev = Next s' \<longrightarrow> shouldShutdown s'"
    using step_shouldShutdown by blast
  have b: "\<forall>j. sched s = SchedCheck j \<and> shouldShutdown s \<longrightarrow>
            processQueue_step s = Next (s\<lparr>sched := SchedReject j\<rparr>)"
    by (simp add: processQueue_step_def)
  have c: "\<forall>j. sched s = SchedReject j \<longrightarrow>
            shouldShutdown s \<and> sent (result (job s j)) = [] \<and>
            processQueue_step s =
              Next ((set_job j ((job s j)\<lparr>result := (result (job s j))\<lparr>buf := [Some ErrShutdown]\<rparr>\<rparr>) s)
                      \<lparr>sched := SchedRecv\<rparr>)"
  proof (intro allI impI)
    fix j
    assume k: "sched s = SchedReject j"
    then have "cur (sched s) = Some j" by simp
    note u = inv_queue_unresolved [OF q this]
    from st k have "shouldShutdown s" by (auto simp: inv_stop_def)
    with k u show "shouldShutdown s \<and> sent (result (job s j)) = [] \<and>
            processQueue_step s =
              Next ((set_job j ((job s j)\<lparr>result := (result (job s j))\<lparr>buf := [Some ErrShutdown]\<rparr>\<rparr>) s)
                      \<lparr>sched := SchedRecv\<rparr>)"
      by (simp add: processQueue_step_def chan_send_def sent_def)
  qed
  from a b c show ?thesis by blast
qed

text \<open>
  A job enqueued before \<open>Stop\<close> sets the flag and received after.
\<close>

theorem shutdown_rejects_dequeued_job_witness:
  "map_res sched (run_New 1 1 [NewJobCall 0, NewJobSend 0, StopCall, Sched]) = Next (SchedCheck 0) \<and>
   map_res shouldShutdown (run_New 1 1 [NewJobCall 0, NewJobSend 0, StopCall, Sched]) = Next True \<and>
   map_res sched (run_New 1 1 [NewJobCall 0, NewJobSend 0, StopCall, Sched, Sched]) =
     Next (SchedReject 0) \<and>
   map_res sched (run_New 1 1 [NewJobCall 0, NewJobSend 0, StopCall, Sched, Sched, Sched]) =
     Next SchedRecv \<and>
   map_res (\<lambda>s. buf (result (job s 0)))
     (run_New 1 1 [NewJobCall 0, NewJobSend 0, StopCall, Sched, Sched, Sched]) =
     Next [Some ErrShutdown]"
proof -
  obtain s where r: "run_New 1 1 [NewJobCall 0, NewJobSend 0, StopCall, Sched] = Next s"
    and k: "sched s = SchedCheck 0" and f: "shouldShutdown s" and l: "length (jobs s) = 1"
    by (simp add: eval_defs)
  from shutdown_rejects_dequeued_job [OF r] k f
  have "step s Sched = Next (s\<lparr>sched := SchedReject 0\<rparr>)" by simp
  from run_New_snoc [OF r this]
  have r2: "run_New 1 1 [NewJobCall 0, NewJobSend 0, StopCall, Sched, Sched] =
      Next (s\<lparr>sched := SchedReject 0\<rparr>)" by simp
  from shutdown_rejects_dequeued_job [OF r2]
  have "step (s\<lparr>sched := SchedReject 0\<rparr>) Sched =
      Next ((set_job 0 ((job s 0)\<lparr>result := (result (job s 0))\<lparr>buf := [Some ErrShutdown]\<rparr>\<rparr>) s)
              \<lparr>sched := SchedRecv\<rparr>)"
    by (simp add: job_def set_job_def)
  from run_New_snoc [OF r2 this]
  have r3: "run_New 1 1 [NewJobCall 0, NewJobSend 0, StopCall, Sched, Sched, Sched] =
      Next ((set_job 0 ((job s 0)\<lparr>result := (result (job s 0))\<lparr>buf := [Some ErrShutdown]\<rparr>\<rparr>) s)
              \<lparr>sched := SchedRecv\<rparr>)" by simp
  from r k f l show ?thesis unfolding r2 r3 by (simp add: job_def set_job_def)
qed

text \<open>
  C8: the acknowledgment channel is closed at most once. In every reachable state
  \<open>ackShutdown\<close> is closed exactly when \<open>triggeredShutdown\<close> is set and exactly when
  the scheduler goroutine has ended. So the critical section of lines 83 to 88 never
  panics, and running it once more changes nothing. When the scheduler reaches it,
  the channel is open and the step closes it and sets the flag.
\<close>

theorem ackShutdown_closed_once:
  assumes "run_New workers maxJobs es = Next s"
  shows "(ackShutdown s \<longleftrightarrow> triggeredShutdown s) \<and>
         (ackShutdown s \<longleftrightarrow> sched s = SchedDone) \<and>
         (\<exists>s'. ack_block s = Next s' \<and> ack_block s' = Next s' \<and>
               (ackShutdown s' \<longleftrightarrow> triggeredShutdown s')) \<and>
         (sched s = SchedAck \<longrightarrow>
            \<not> ackShutdown s \<and>
            processQueue_step s =
              Next (s\<lparr>triggeredShutdown := True, ackShutdown := True, sched := SchedDone\<rparr>))"
proof -
  from assms have "inv s" by (rule inv_run_New)
  then have st: "inv_stop s" by (simp add: inv_def)
  then have a: "ackShutdown s \<longleftrightarrow> triggeredShutdown s"
    and b: "ackShutdown s \<longleftrightarrow> sched s = SchedDone"
    by (auto simp: inv_stop_def)
  from a have c: "\<exists>s'. ack_block s = Next s' \<and> ack_block s' = Next s' \<and>
               (ackShutdown s' \<longleftrightarrow> triggeredShutdown s')"
    by (simp add: ack_block_def)
  have d: "sched s = SchedAck \<longrightarrow>
            \<not> ackShutdown s \<and>
            processQueue_step s =
              Next (s\<lparr>triggeredShutdown := True, ackShutdown := True, sched := SchedDone\<rparr>)"
  proof
    assume k: "sched s = SchedAck"
    with st have "shouldShutdown s" "\<not> triggeredShutdown s" "\<not> ackShutdown s"
      by (auto simp: inv_stop_def)
    with k show "\<not> ackShutdown s \<and>
            processQueue_step s =
              Next (s\<lparr>triggeredShutdown := True, ackShutdown := True, sched := SchedDone\<rparr>)"
      by (simp add: processQueue_step_def ack_block_def)
  qed
  from a b c d show ?thesis by blast
qed

text \<open>
  The scheduler before and after lines 83 to 88.
\<close>

theorem ackShutdown_closed_once_witness:
  "map_res sched (run_New 1 1 [StopCall, StopCall, Sched]) = Next SchedAck \<and>
   map_res ackShutdown (run_New 1 1 [StopCall, StopCall, Sched]) = Next False \<and>
   map_res ackShutdown (run_New 1 1 [StopCall, StopCall, Sched, Sched]) = Next True \<and>
   map_res triggeredShutdown (run_New 1 1 [StopCall, StopCall, Sched, Sched]) = Next True \<and>
   map_res ack_block (run_New 1 1 [StopCall, StopCall, Sched, Sched]) =
     map_res Next (run_New 1 1 [StopCall, StopCall, Sched, Sched])"
proof -
  obtain s where r: "run_New 1 1 [StopCall, StopCall, Sched] = Next s"
    and k: "sched s = SchedAck"
    by (simp add: eval_defs)
  from ackShutdown_closed_once [OF r] k
  have n: "\<not> ackShutdown s"
    and p: "processQueue_step s =
      Next (s\<lparr>triggeredShutdown := True, ackShutdown := True, sched := SchedDone\<rparr>)"
    by auto
  from p have "step s Sched =
      Next (s\<lparr>triggeredShutdown := True, ackShutdown := True, sched := SchedDone\<rparr>)"
    by simp
  from run_New_snoc [OF r this]
  have r2: "run_New 1 1 [StopCall, StopCall, Sched, Sched] =
      Next (s\<lparr>triggeredShutdown := True, ackShutdown := True, sched := SchedDone\<rparr>)"
    by simp
  from ackShutdown_closed_once [OF r2]
  have "ack_block (s\<lparr>triggeredShutdown := True, ackShutdown := True, sched := SchedDone\<rparr>) =
      Next (s\<lparr>triggeredShutdown := True, ackShutdown := True, sched := SchedDone\<rparr>)"
    by (simp add: ack_block_def)
  with r k n r2 show ?thesis by simp
qed

text \<open>
  C9: a call of \<open>NewJob\<close> that has passed the check of the shutdown flag still
  enqueues its job when \<open>Stop\<close> starts. The code does not when \<open>Stop\<close> gets as far
  as \<open>close(w.queue)\<close> before the send of line 178: the send is on a closed channel
  and panics.
\<close>

theorem NewJob_send_after_close_panics:
  "run_New 1 1 [NewJobCall 0, StopCall, StopCall, NewJobSend 0] = Panic"
  by (simp add: eval_defs)

text \<open>
  A job is created while the shutdown flag is not set and \<open>Done\<close> is called
  without a task; \<open>Stop\<close> sets the flag before the scheduler receives the job. The
  drain loop is never entered, \<open>completed\<close> stays open and \<open>Wait\<close> returns
  \<open>ErrShutdown\<close>.
\<close>

theorem empty_job_rejected_after_Stop:
  "map_res (map_res fst \<circ> NewJob 0) (run_New 1 1 []) = Next (Next (Some 0, None)) \<and>
   map_res shouldShutdown (run_New 1 1 []) = Next False \<and>
   map_res (map_res fst \<circ> Wait 0)
     (run_New 1 1 [NewJobCall 0, NewJobSend 0, DoneCall 0 False, StopCall, Sched, Sched, Sched]) =
     Next (Next (Some ErrShutdown)) \<and>
   map_res jobs
     (run_New 1 1 [NewJobCall 0, NewJobSend 0, DoneCall 0 False, StopCall, Sched, Sched, Sched]) =
     Next [\<lparr>tasks = \<lparr>taken = [], buf = [], cap = 0, closed = True\<rparr>, completed = False,
          result = \<lparr>taken = [], buf = [Some ErrShutdown], cap = 1, closed = False\<rparr>,
          callback = NoCallback\<rparr>]"
  by (simp add: eval_defs)

text \<open>
  C10, as the code has it: a job without tasks whose task channel is closed, and
  which the scheduler receives and checks while the shutdown flag is not set, is
  resolved by the scheduler alone. From the check (five steps), or from the head of
  the drain loop (four steps), the scheduler leaves the loop, passes \<open>w.sg.Wait()\<close>,
  closes \<open>completed\<close>, delivers \<open>nil\<close> and is back at the queue; \<open>Wait\<close> then
  returns \<open>nil\<close>.
\<close>

theorem empty_job_returns_nil:
  assumes "run_New workers maxJobs es = Next s"
    and "sent (tasks (job s j)) = []" and "closed (tasks (job s j))"
  shows "(sched s = SchedCheck j \<and> \<not> shouldShutdown s \<longrightarrow>
            (\<exists>s'. run s [Sched, Sched, Sched, Sched, Sched] = Next s' \<and>
               sched s' = SchedRecv \<and> completed (job s' j) \<and>
               sent (result (job s' j)) = [None] \<and> (\<exists>s''. Wait j s' = Next (None, s'')))) \<and>
         (sched s = SchedDrain j \<longrightarrow>
            (\<exists>s'. run s [Sched, Sched, Sched, Sched] = Next s' \<and>
               sched s' = SchedRecv \<and> completed (job s' j) \<and>
               sent (result (job s' j)) = [None] \<and> (\<exists>s''. Wait j s' = Next (None, s''))))"
proof -
  from assms(1) have i: "inv s" and b: "inv_bound s"
    by (rule inv_run_New, rule inv_bound_run_New)
  have d: "sched s = SchedDrain j \<longrightarrow>
            (\<exists>s'. run s [Sched, Sched, Sched, Sched] = Next s' \<and>
               sched s' = SchedRecv \<and> completed (job s' j) \<and>
               sent (result (job s' j)) = [None] \<and> (\<exists>s''. Wait j s' = Next (None, s'')))"
  proof
    assume k: "sched s = SchedDrain j"
    then have c: "cur (sched s) = Some j" by simp
    note u = inv_queue_unresolved [OF inv_parts(2) [OF i] c] inv_queue_cur [OF inv_parts(2) [OF i] c]
    from empty_job_drain [OF i b k assms(2,3)] empty_job_outcome [OF u(6) u(4) refl]
    show "\<exists>s'. run s [Sched, Sched, Sched, Sched] = Next s' \<and>
               sched s' = SchedRecv \<and> completed (job s' j) \<and>
               sent (result (job s' j)) = [None] \<and> (\<exists>s''. Wait j s' = Next (None, s''))"
      by blast
  qed
  have c: "sched s = SchedCheck j \<and> \<not> shouldShutdown s \<longrightarrow>
            (\<exists>s'. run s [Sched, Sched, Sched, Sched, Sched] = Next s' \<and>
               sched s' = SchedRecv \<and> completed (job s' j) \<and>
               sent (result (job s' j)) = [None] \<and> (\<exists>s''. Wait j s' = Next (None, s'')))"
  proof
    assume k: "sched s = SchedCheck j \<and> \<not> shouldShutdown s"
    let ?s1 = "s\<lparr>sched := SchedDrain j\<rparr>"
    from k have s1: "step s Sched = Next ?s1" by (simp add: processQueue_step_def)
    from i s1 have i1: "inv ?s1" by (rule inv_step)
    from i b s1 have b1: "inv_bound ?s1" by (rule inv_bound_step)
    have c1: "cur (sched ?s1) = Some j" by simp
    note u = inv_queue_unresolved [OF inv_parts(2) [OF i1] c1] inv_queue_cur [OF inv_parts(2) [OF i1] c1]
    from assms(2,3) have t: "sent (tasks (job ?s1 j)) = []" "closed (tasks (job ?s1 j))"
      by (simp_all add: job_def)
    have "sched ?s1 = SchedDrain j" by simp
    from empty_job_drain [OF i1 b1 this t] s1
    have "run s [Sched, Sched, Sched, Sched, Sched] =
      Next ((set_job j ((job ?s1 j)\<lparr>completed := True\<rparr>\<lparr>result := (result (job ?s1 j))\<lparr>buf := [None]\<rparr>\<rparr>) ?s1)
              \<lparr>err := None, sched := SchedRecv\<rparr>)"
      by simp
    with empty_job_outcome [OF u(6) u(4) refl]
    show "\<exists>s'. run s [Sched, Sched, Sched, Sched, Sched] = Next s' \<and>
               sched s' = SchedRecv \<and> completed (job s' j) \<and>
               sent (result (job s' j)) = [None] \<and> (\<exists>s''. Wait j s' = Next (None, s''))"
      by blast
  qed
  from c d show ?thesis by blast
qed

text \<open>
  The job of the pool's first call of \<open>NewJob\<close>, finalized without a task.
\<close>

theorem empty_job_returns_nil_witness:
  "map_res sched (run_New 1 1 [NewJobCall 0, NewJobSend 0, DoneCall 0 False, Sched]) =
     Next (SchedCheck 0) \<and>
   map_res shouldShutdown (run_New 1 1 [NewJobCall 0, NewJobSend 0, DoneCall 0 False, Sched]) =
     Next False \<and>
   map_res (\<lambda>s. tasks (job s 0)) (run_New 1 1 [NewJobCall 0, NewJobSend 0, DoneCall 0 False, Sched]) =
     Next \<lparr>taken = [], buf = [], cap = 0, closed = True\<rparr> \<and>
   map_res (\<lambda>s. completed (job s 0))
     (run_New 1 1 ([NewJobCall 0, NewJobSend 0, DoneCall 0 False, Sched] @
        [Sched, Sched, Sched, Sched, Sched])) = Next True \<and>
   map_res (map_res fst \<circ> Wait 0)
     (run_New 1 1 ([NewJobCall 0, NewJobSend 0, DoneCall 0 False, Sched] @
        [Sched, Sched, Sched, Sched, Sched])) = Next (Next None)"
proof -
  obtain s where r: "run_New 1 1 [NewJobCall 0, NewJobSend 0, DoneCall 0 False, Sched] = Next s"
    and k: "sched s = SchedCheck 0" and f: "\<not> shouldShutdown s"
    and t: "tasks (job s 0) = \<lparr>taken = [], buf = [], cap = 0, closed = True\<rparr>"
    by (simp add: eval_defs)
  from t have t1: "sent (tasks (job s 0)) = []" and t2: "closed (tasks (job s 0))"
    by (simp_all add: sent_def)
  from empty_job_returns_nil [OF r t1 t2] k f
  obtain s' s'' where r2: "run s [Sched, Sched, Sched, Sched, Sched] = Next s'"
    and c: "completed (job s' 0)" and w: "Wait 0 s' = Next (None, s'')"
    by blast
  note r3 = run_New_then [OF r r2]
  from k f t c w show ?thesis unfolding r r3 by simp
qed

end
